theory Spec2Isabelle
  imports Main "HOL-Library.Sublist"
begin

section \<open>JavaScript values\<close>

text \<open>
  Values that travel on the wire are JSON values. Strings are sequences of 8-bit characters
  (the bytes of the UTF-8 text). Numbers are modelled by integers, which covers the
  identifiers, lengths and error codes the server works with; a JavaScript number is a
  double, so \<open>JNum n\<close> stands for a number only when \<open>n\<close> is a safe integer (below \<open>2\<^sup>5\<^sup>3\<close> in
  absolute value), and numbers with a fraction have no value here. An object is the list of
  its own properties in insertion order. The JavaScript value \<open>undefined\<close> is \<open>None\<close> of an
  option type.
\<close>

datatype Json =
    JNull
  | JBool bool
  | JNum int
  | JStr string
  | JArr "Json list"
  | JObj "(string \<times> Json) list"

text \<open>
  Property access \<open>v[k]\<close> restricted to own properties: the own properties of an object,
  \<open>undefined\<close> on every other value. The server reads the properties \<open>id\<close>, \<open>method\<close>,
  \<open>params\<close>, \<open>name\<close>, \<open>arguments\<close>, \<open>uri\<close>, \<open>variables\<close> and \<open>text\<close> of decoded JSON values;
  none of these names is a property of \<open>Object.prototype\<close>, \<open>Array.prototype\<close>, a string, a
  number or a boolean, so for them the own properties are the whole answer. Template
  rendering looks up names chosen by the template, where inherited properties matter: see
  \<open>property_text\<close> below.
\<close>

fun get_prop :: "Json \<Rightarrow> string \<Rightarrow> Json option" where
  "get_prop (JObj kvs) k = map_of kvs k"
| "get_prop _ k = None"

text \<open>The nullish coalescing \<open>v ?? d\<close>.\<close>

fun nullish_or :: "Json option \<Rightarrow> Json \<Rightarrow> Json" where
  "nullish_or None d = d"
| "nullish_or (Some JNull) d = d"
| "nullish_or (Some v) d = v"

text \<open>Truthiness of a value, as tested by \<open>!v\<close> and \<open>v ? a : b\<close>.\<close>

fun truthy :: "Json option \<Rightarrow> bool" where
  "truthy None = False"
| "truthy (Some JNull) = False"
| "truthy (Some (JBool b)) = b"
| "truthy (Some (JNum n)) = (n \<noteq> 0)"
| "truthy (Some (JStr s)) = (s \<noteq> [])"
| "truthy (Some (JArr _)) = True"
| "truthy (Some (JObj _)) = True"

subsection \<open>Decimal numerals\<close>

definition digit_char :: "nat \<Rightarrow> char" where
  "digit_char d = char_of (48 + d)"

fun decimal :: "nat \<Rightarrow> string" where
  "decimal n = (if n < 10 then [digit_char n] else decimal (n div 10) @ [digit_char (n mod 10)])"

declare decimal.simps [simp del]

definition decimal_int :: "int \<Rightarrow> string" where
  "decimal_int i = (if i < 0 then CHR ''-'' # decimal (nat (- i)) else decimal (nat i))"

text \<open>
  The string conversion \<open>String(v)\<close>. A number prints as its decimal numeral, which is what
  JavaScript prints for every safe integer (from \<open>10\<^sup>2\<^sup>1\<close> on it prints an exponent). An array
  joins the string forms of its elements with commas, where \<open>null\<close> elements print as the
  empty string. An object is converted by the \<open>toString\<close> method it inherits, which gives
  \<open>[object Object]\<close>; when the object has an own property named \<open>toString\<close> (whose value,
  coming from JSON, is no function) the conversion throws a \<open>TypeError\<close> instead.
  \<open>String_js\<close> is the conversion on the values where it returns, which \<open>string_coercible\<close>
  singles out; the statements below that depend on the text of a conversion are made for
  such values.
\<close>

fun join :: "string \<Rightarrow> string list \<Rightarrow> string" where
  "join sep [] = []"
| "join sep [x] = x"
| "join sep (x # y # ys) = x @ sep @ join sep (y # ys)"

fun String_js :: "Json \<Rightarrow> string" where
  "String_js JNull = ''null''"
| "String_js (JBool b) = (if b then ''true'' else ''false'')"
| "String_js (JNum n) = decimal_int n"
| "String_js (JStr s) = s"
| "String_js (JArr xs) = join '','' (map (\<lambda>x. if x = JNull then [] else String_js x) xs)"
| "String_js (JObj kvs) = ''[object Object]''"

fun String_opt :: "Json option \<Rightarrow> string" where
  "String_opt None = ''undefined''"
| "String_opt (Some v) = String_js v"


text \<open>An object literal whose property values may be \<open>undefined\<close>: such properties are
  dropped when the object is serialised, so they are dropped here.\<close>

definition object :: "(string \<times> Json option) list \<Rightarrow> Json" where
  "object fields = JObj (List.map_filter (\<lambda>(k, v). map_option (Pair k) v) fields)"

section \<open>Protocol types\<close>

record ToolDef =
  name :: string
  description :: "string option"
  inputSchema :: "Json option"

datatype ContentPart = TextPart string

record ToolResult =
  content :: "ContentPart list"
  isError :: "bool option"

record ResourceDef =
  uri :: string
  rname :: "string option"
  rdescription :: "string option"
  mimeType :: "string option"

record PromptVariable =
  vname :: string
  vdescription :: "string option"
  required :: "bool option"

record PromptDef =
  pname :: string
  pdescription :: "string option"
  pvariables :: "PromptVariable list option"

record ResourceContent =
  curi :: string
  cmimeType :: "string option"
  ctext :: "string option"

section \<open>Registries\<close>

text \<open>
  A JavaScript \<open>Map\<close> keeps its entries in insertion order; \<open>set\<close> on a key that is present
  replaces the value in place, and appends the entry otherwise.
\<close>

type_synonym ('k, 'v) Map = "('k \<times> 'v) list"

fun Map_set :: "'k \<Rightarrow> 'v \<Rightarrow> ('k, 'v) Map \<Rightarrow> ('k, 'v) Map" where
  "Map_set k v [] = [(k, v)]"
| "Map_set k v ((k', v') # m) = (if k' = k then (k, v) # m else (k', v') # Map_set k v m)"

definition Map_get :: "('k, 'v) Map \<Rightarrow> 'k \<Rightarrow> 'v option" where
  "Map_get m k = map_of m k"

definition Map_values :: "('k, 'v) Map \<Rightarrow> 'v list" where
  "Map_values m = map snd m"

text \<open>A failure raised with \<open>throw new Error(message)\<close> is the left injection of its message.\<close>

type_synonym 'a throws = "string + 'a"

subsection \<open>ToolRegistry\<close>

text \<open>A tool handler receives the arguments and the context's clock reading.\<close>

type_synonym ToolHandler = "Json option \<Rightarrow> string \<Rightarrow> ToolResult throws"

type_synonym ToolRegistry = "(string, ToolDef \<times> ToolHandler) Map"

definition ToolRegistry_register :: "ToolDef \<Rightarrow> ToolHandler \<Rightarrow> ToolRegistry \<Rightarrow> ToolRegistry" where
  "ToolRegistry_register d handler tools = Map_set (name d) (d, handler) tools"

definition ToolRegistry_list :: "ToolRegistry \<Rightarrow> ToolDef list" where
  "ToolRegistry_list tools = map fst (Map_values tools)"

definition ToolRegistry_call :: "ToolRegistry \<Rightarrow> string \<Rightarrow> string \<Rightarrow> Json option \<Rightarrow> ToolResult throws" where
  "ToolRegistry_call tools now nm args =
     (case Map_get tools nm of
        None \<Rightarrow> Inr \<lparr>content = [TextPart (''Tool not found: '' @ nm)], isError = Some True\<rparr>
      | Some t \<Rightarrow> snd t args now)"

subsection \<open>ResourceRegistry\<close>

type_synonym ResourceReader = "string \<Rightarrow> ResourceContent throws"

record ResourceRegistry =
  resources :: "ResourceDef list"
  readers :: "(string, ResourceReader) Map"

definition ResourceRegistry_new :: ResourceRegistry where
  "ResourceRegistry_new = \<lparr>resources = [], readers = []\<rparr>"

definition ResourceRegistry_register ::
  "ResourceDef \<Rightarrow> ResourceReader \<Rightarrow> ResourceRegistry \<Rightarrow> ResourceRegistry" where
  "ResourceRegistry_register d reader reg =
     \<lparr>resources = resources reg @ [d], readers = Map_set (uri d) reader (readers reg)\<rparr>"

definition ResourceRegistry_list :: "ResourceRegistry \<Rightarrow> ResourceDef list" where
  "ResourceRegistry_list reg = resources reg"

definition ResourceRegistry_read :: "ResourceRegistry \<Rightarrow> string \<Rightarrow> ResourceContent throws" where
  "ResourceRegistry_read reg u =
     (let found = (case find (\<lambda>r. uri r = u) (resources reg) of
                     Some r \<Rightarrow> Some r
                   | None \<Rightarrow> find (\<lambda>r. prefix (uri r) u) (resources reg))
      in case found of
           None \<Rightarrow> Inl ''Resource not found''
         | Some match \<Rightarrow>
             (case Map_get (readers reg) (uri match) of
                None \<Rightarrow> Inl ''Reader missing''
              | Some reader \<Rightarrow> reader u))"

subsection \<open>PromptRegistry\<close>

type_synonym PromptRegistry = "(string, PromptDef \<times> string) Map"

definition PromptRegistry_register :: "PromptDef \<Rightarrow> string \<Rightarrow> PromptRegistry \<Rightarrow> PromptRegistry" where
  "PromptRegistry_register d template prompts = Map_set (pname d) (d, template) prompts"

definition PromptRegistry_list :: "PromptRegistry \<Rightarrow> PromptDef list" where
  "PromptRegistry_list prompts = map fst (Map_values prompts)"

text \<open>
  \<open>renderTemplate\<close> is \<open>tpl.replace(/\{\{(\w+)\}\}/g, (_, k) => String(vars[k] ?? ""))\<close>.
  The regular expression is matched as the engine does it: at a position, the two opening
  braces, then the longest run of word characters, giving characters back one at a time
  until the two closing braces follow. A global replace scans from the left, copies a
  character where no match starts, and continues behind a match; replacement text is
  never scanned again.

  The access \<open>vars[k]\<close> is a full property lookup: when \<open>k\<close> is no own property of \<open>vars\<close>, the
  prototype chain is searched. The variables of a request are a decoded JSON object or the
  literal \<open>{}\<close>, whose prototype is \<open>Object.prototype\<close>; \<open>Object_prototype\<close> lists the twelve
  properties found there, each with the text that \<open>String\<close> gives for its value (eleven
  built-in functions, printed by Node as \<open>function f() { [native code] }\<close>, and the accessor
  \<open>__proto__\<close>, whose value is \<open>Object.prototype\<close> itself). An own property shadows an
  inherited one, also when its value is \<open>null\<close>. \<open>property_text vars k\<close> is
  \<open>String(vars[k] ?? "")\<close>. For a \<open>vars\<close> that is no object (an array, a string, a number or
  a boolean, all outside the declared type of \<open>variables\<close>) only the properties of
  \<open>Object.prototype\<close> are modelled, not its indices, its \<open>length\<close> or the methods of its own
  prototype.
\<close>

definition native_function :: "string \<Rightarrow> string" where
  "native_function f = ''function '' @ f @ ''() { [native code] }''"

definition Object_prototype :: "(string \<times> string) list" where
  "Object_prototype =
     [(''constructor'', native_function ''Object''),
      (''__defineGetter__'', native_function ''__defineGetter__''),
      (''__defineSetter__'', native_function ''__defineSetter__''),
      (''hasOwnProperty'', native_function ''hasOwnProperty''),
      (''__lookupGetter__'', native_function ''__lookupGetter__''),
      (''__lookupSetter__'', native_function ''__lookupSetter__''),
      (''isPrototypeOf'', native_function ''isPrototypeOf''),
      (''propertyIsEnumerable'', native_function ''propertyIsEnumerable''),
      (''toString'', native_function ''toString''),
      (''valueOf'', native_function ''valueOf''),
      (''__proto__'', ''[object Object]''),
      (''toLocaleString'', native_function ''toLocaleString'')]"

definition property_text :: "Json \<Rightarrow> string \<Rightarrow> string" where
  "property_text vars k =
     (case get_prop vars k of
        Some v \<Rightarrow> String_js (nullish_or (Some v) (JStr []))
      | None \<Rightarrow> (case map_of Object_prototype k of Some inherited \<Rightarrow> inherited | None \<Rightarrow> []))"

definition is_word :: "char \<Rightarrow> bool" where
  "is_word c = (let n = (of_char c :: nat) in
     (48 \<le> n \<and> n \<le> 57) \<or> (65 \<le> n \<and> n \<le> 90) \<or> (97 \<le> n \<and> n \<le> 122) \<or> n = 95)"

fun try_word :: "nat \<Rightarrow> string \<Rightarrow> (string \<times> string) option" where
  "try_word 0 t = None"
| "try_word (Suc j) t =
     (if prefix ''}}'' (drop (Suc j) t) then Some (take (Suc j) t, drop (Suc j + 2) t)
      else try_word j t)"

definition match_placeholder :: "string \<Rightarrow> (string \<times> string) option" where
  "match_placeholder s =
     (if prefix ''{{'' s
      then try_word (length (takeWhile is_word (drop 2 s))) (drop 2 s)
      else None)"

lemma try_word_shorter: "try_word j t = Some (k, rest) \<Longrightarrow> length rest \<le> length t"
  by (induction j) (auto split: if_splits)

lemma match_placeholder_shorter:
  "match_placeholder s = Some (k, rest) \<Longrightarrow> length rest < length s"
  by (auto simp: match_placeholder_def prefix_def dest!: try_word_shorter split: if_splits)

function replace_placeholders :: "(string \<Rightarrow> string) \<Rightarrow> string \<Rightarrow> string" where
  "replace_placeholders f [] = []"
| "replace_placeholders f (c # cs) =
     (case match_placeholder (c # cs) of
        Some (k, rest) \<Rightarrow> f k @ replace_placeholders f rest
      | None \<Rightarrow> c # replace_placeholders f cs)"
  by pat_completeness auto
termination
  by (relation "measure (\<lambda>(f, s). length s)") (auto dest: match_placeholder_shorter)

declare replace_placeholders.simps(2) [simp del]

definition renderTemplate :: "string \<Rightarrow> Json \<Rightarrow> string" where
  "renderTemplate tpl vars = replace_placeholders (property_text vars) tpl"

text \<open>\<open>get\<close> takes the variables with the default \<open>{}\<close>; the server passes \<open>variables ?? {}\<close>,
  so the value is never \<open>null\<close> (on which the property access would throw).\<close>

definition PromptRegistry_get :: "PromptRegistry \<Rightarrow> string \<Rightarrow> Json option \<Rightarrow> (string \<times> string) throws" where
  "PromptRegistry_get prompts nm vs =
     (let vars = (case vs of None \<Rightarrow> JObj [] | Some v \<Rightarrow> v) in
      case Map_get prompts nm of
        None \<Rightarrow> Inl ''Prompt not found''
      | Some p \<Rightarrow> Inr (nm, renderTemplate (snd p) vars))"

section \<open>Properties of the registries\<close>

lemma Map_get_set: "Map_get (Map_set k v m) k' = (if k' = k then Some v else Map_get m k')"
  by (induction m) (auto simp: Map_get_def)

lemma Map_set_keys:
  "map fst (Map_set k v m) = (if k \<in> set (map fst m) then map fst m else map fst m @ [k])"
  by (induction m) (force simp: image_iff)+

lemma Map_set_distinct: "distinct (map fst m) \<Longrightarrow> distinct (map fst (Map_set k v m))"
  by (simp add: Map_set_keys)

lemma Map_set_twice: "Map_set k v2 (Map_set k v1 m) = Map_set k v2 m"
  by (induction m) auto

lemma ToolRegistry_register_twice:
  "name d2 = name d1 \<Longrightarrow>
   ToolRegistry_register d2 h2 (ToolRegistry_register d1 h1 tools) = ToolRegistry_register d2 h2 tools"
  by (simp add: ToolRegistry_register_def Map_set_twice)

lemma PromptRegistry_register_twice:
  "pname d2 = pname d1 \<Longrightarrow>
   PromptRegistry_register d2 t2 (PromptRegistry_register d1 t1 prompts) =
   PromptRegistry_register d2 t2 prompts"
  by (simp add: PromptRegistry_register_def Map_set_twice)

lemma ToolRegistry_register_replaces:
  assumes "name d2 = name d1"
  shows "ToolRegistry_list (ToolRegistry_register d2 h2 (ToolRegistry_register d1 h1 [])) = [d2]"
    and "ToolRegistry_call (ToolRegistry_register d2 h2 (ToolRegistry_register d1 h1 tools)) now (name d1) args
           = h2 args now"
  using assms
  by (simp_all add: ToolRegistry_list_def ToolRegistry_register_def Map_values_def
      ToolRegistry_call_def Map_get_set)

lemma PromptRegistry_register_replaces:
  assumes "pname d2 = pname d1"
  shows "PromptRegistry_list (PromptRegistry_register d2 t2 (PromptRegistry_register d1 t1 [])) = [d2]"
    and "PromptRegistry_get (PromptRegistry_register d2 t2 (PromptRegistry_register d1 t1 prompts)) (pname d1) vs
           = Inr (pname d1, renderTemplate t2 (case vs of None \<Rightarrow> JObj [] | Some v \<Rightarrow> v))"
  using assms
  by (simp_all add: PromptRegistry_list_def PromptRegistry_register_def Map_values_def
      PromptRegistry_get_def Map_get_set)

lemma ToolRegistry_keys_distinct:
  "distinct (map fst tools) \<Longrightarrow> distinct (map fst (ToolRegistry_register d h tools))"
  by (simp add: ToolRegistry_register_def Map_set_distinct)

lemma PromptRegistry_keys_distinct:
  "distinct (map fst prompts) \<Longrightarrow> distinct (map fst (PromptRegistry_register d t prompts))"
  by (simp add: PromptRegistry_register_def Map_set_distinct)

text \<open>
  C5. Keys are unique in the tool and prompt registries, and a later registration replaces the
  earlier one there. The resource registry keeps its definitions in an array that
  \<open>register\<close> only appends to: after two registrations under one URI, \<open>list\<close> returns both
  definitions (the earlier one first), while the reader is the later one.
\<close>

theorem ResourceRegistry_register_twice_lists_both:
  "ResourceRegistry_list
     (ResourceRegistry_register \<lparr>uri = ''mem://'', rname = Some ''b'', rdescription = None, mimeType = None\<rparr> r2
       (ResourceRegistry_register \<lparr>uri = ''mem://'', rname = Some ''a'', rdescription = None, mimeType = None\<rparr> r1
          ResourceRegistry_new)) =
   [\<lparr>uri = ''mem://'', rname = Some ''a'', rdescription = None, mimeType = None\<rparr>,
    \<lparr>uri = ''mem://'', rname = Some ''b'', rdescription = None, mimeType = None\<rparr>]
   \<and> ResourceRegistry_read
     (ResourceRegistry_register \<lparr>uri = ''mem://'', rname = Some ''b'', rdescription = None, mimeType = None\<rparr> r2
       (ResourceRegistry_register \<lparr>uri = ''mem://'', rname = Some ''a'', rdescription = None, mimeType = None\<rparr> r1
          ResourceRegistry_new)) ''mem://'' = r2 ''mem://''"
  by (simp add: ResourceRegistry_list_def ResourceRegistry_register_def ResourceRegistry_new_def
      ResourceRegistry_read_def Map_get_def)

section \<open>Prompt rendering\<close>






definition inherited :: "string \<Rightarrow> bool" where
  "inherited k = (k \<in> set (map fst Object_prototype))"
















section \<open>Sandbox\<close>

text \<open>
  \<open>path.resolve\<close> and \<open>path.sep\<close> of the platform, for POSIX paths: the arguments are
  joined from the right until an absolute one is met (the working directory comes last),
  then the segments are normalised: empty and \<open>.\<close> segments are dropped and \<open>..\<close> removes
  the segment before it, or nothing at the root.
\<close>

definition sep :: string where
  "sep = ''/''"

fun split_slash :: "string \<Rightarrow> string list" where
  "split_slash [] = [[]]"
| "split_slash (c # cs) =
     (if c = CHR ''/'' then [] # split_slash cs
      else (case split_slash cs of seg # segs \<Rightarrow> (c # seg) # segs | [] \<Rightarrow> [[c]]))"

fun normalize_segments :: "bool \<Rightarrow> string list \<Rightarrow> string list \<Rightarrow> string list" where
  "normalize_segments allowAboveRoot res [] = res"
| "normalize_segments allowAboveRoot res (seg # segs) =
     (if seg = [] \<or> seg = ''.'' then normalize_segments allowAboveRoot res segs
      else if seg = ''..'' then
        (if res \<noteq> [] \<and> last res \<noteq> ''..'' then normalize_segments allowAboveRoot (butlast res) segs
         else if allowAboveRoot then normalize_segments allowAboveRoot (res @ [''..'']) segs
         else normalize_segments allowAboveRoot res segs)
      else normalize_segments allowAboveRoot (res @ [seg]) segs)"

definition normalizeString :: "string \<Rightarrow> bool \<Rightarrow> string" where
  "normalizeString path allowAboveRoot =
     join ''/'' (normalize_segments allowAboveRoot [] (split_slash path))"

fun resolve_join :: "string list \<Rightarrow> string \<Rightarrow> string \<times> bool" where
  "resolve_join [] resolvedPath = (resolvedPath, False)"
| "resolve_join (path # paths) resolvedPath =
     (if path = [] then resolve_join paths resolvedPath
      else if hd path = CHR ''/'' then (path @ ''/'' @ resolvedPath, True)
      else resolve_join paths (path @ ''/'' @ resolvedPath))"

definition resolve :: "string \<Rightarrow> string list \<Rightarrow> string" where
  "resolve cwd args =
     (case resolve_join (rev args @ [cwd]) [] of
        (resolvedPath, resolvedAbsolute) \<Rightarrow>
          (let n = normalizeString resolvedPath (\<not> resolvedAbsolute) in
           if resolvedAbsolute then CHR ''/'' # n
           else if n \<noteq> [] then n else ''.''))"

text \<open>
  \<open>createSandbox\<close> fixes \<open>base\<close>, the resolved workspace root; \<open>safeResolve\<close> resolves a path
  against it and compares the resolved path with the base.
\<close>

definition createSandbox_base :: "string \<Rightarrow> string \<Rightarrow> string" where
  "createSandbox_base cwd root = resolve cwd [root]"

definition safeResolve :: "string \<Rightarrow> string \<Rightarrow> string \<Rightarrow> string throws" where
  "safeResolve cwd base p =
     (let resolved = resolve cwd [base, p] in
      if \<not> prefix (base @ sep) resolved \<and> resolved \<noteq> base then Inl ''Path outside workspace''
      else Inr resolved)"

text \<open>The file system as \<open>stat\<close> and \<open>readFile\<close> see it; a missing entry makes \<open>stat\<close> fail
  with Node's message, which quotes the path.\<close>

datatype fsnode = File string | Directory

definition Sandbox_read ::
  "(string \<Rightarrow> fsnode option) \<Rightarrow> string \<Rightarrow> string \<Rightarrow> string \<Rightarrow> (string \<times> string) throws" where
  "Sandbox_read fs cwd base p =
     (case safeResolve cwd base p of
        Inl e \<Rightarrow> Inl e
      | Inr resolved \<Rightarrow>
          (case fs resolved of
             None \<Rightarrow> Inl (''ENOENT: no such file or directory, stat '' @ [CHR 0x27] @ resolved @ [CHR 0x27])
           | Some Directory \<Rightarrow> Inl ''Not a file''
           | Some (File text) \<Rightarrow> Inr (p, text)))"

text \<open>The specification's notion of escaping: the resolved path is neither the root nor below it.\<close>

definition escapes :: "string \<Rightarrow> string \<Rightarrow> string \<Rightarrow> bool" where
  "escapes cwd base p =
     (resolve cwd [base, p] \<noteq> base \<and> \<not> prefix (base @ sep) (resolve cwd [base, p]))"

lemma split_slash_nonempty: "split_slash xs \<noteq> []"
  by (induction xs) (auto split: list.splits)

lemma split_slash_append:
  "split_slash (xs @ CHR ''/'' # ys) = split_slash xs @ split_slash ys"
proof (induction xs)
  case Nil
  show ?case by simp
next
  case (Cons c xs)
  obtain seg segs where "split_slash xs = seg # segs"
    using split_slash_nonempty[of xs] by (cases "split_slash xs") auto
  with Cons show ?case by simp
qed

lemma prefix_sep_segments:
  assumes "prefix (base @ sep) resolved"
  shows "prefix (split_slash base) (split_slash resolved)"
proof -
  from assms obtain r where "resolved = base @ CHR ''/'' # r"
    by (auto simp: prefix_def sep_def)
  then show ?thesis by (simp add: split_slash_append)
qed

text \<open>
  C2. A path that \<open>safeResolve\<close> returns is the resolved path, and it is the root or starts
  with the root followed by the separator, so its segments extend the segments of the
  root; the only failure is the path-outside-workspace error; and every path whose
  resolved form lies outside the root fails with it, in \<open>safeResolve\<close> and in \<open>read\<close>.
\<close>

theorem safeResolve_contained:
  "(\<forall>resolved. safeResolve cwd base p = Inr resolved \<longrightarrow>
       resolved = resolve cwd [base, p] \<and> (resolved = base \<or> prefix (base @ sep) resolved)
       \<and> prefix (split_slash base) (split_slash resolved))
   \<and> (\<forall>e. safeResolve cwd base p = Inl e \<longrightarrow> e = ''Path outside workspace'')
   \<and> (escapes cwd base p \<longrightarrow> safeResolve cwd base p = Inl ''Path outside workspace'')
   \<and> (\<forall>fs. escapes cwd base p \<longrightarrow> Sandbox_read fs cwd base p = Inl ''Path outside workspace'')"
  by (auto simp: safeResolve_def escapes_def Sandbox_read_def Let_def prefix_sep_segments
      split: if_splits)

lemma resolve_eval:
  "resolve ''/home/u'' [''/ws'', ''../outside.txt''] = ''/outside.txt''"
  "resolve ''/home/u'' [''/ws'', ''a/../../x''] = ''/x''"
  "resolve ''/home/u'' [''/ws'', ''../ws2/x''] = ''/ws2/x''"
  "resolve ''/home/u'' [''/ws'', ''sub/../a.txt''] = ''/ws/a.txt''"
  by (simp_all add: resolve_def normalizeString_def)

theorem safeResolve_contained_witness:
  "escapes ''/home/u'' ''/ws'' ''../outside.txt''
   \<and> safeResolve ''/home/u'' ''/ws'' ''../outside.txt'' = Inl ''Path outside workspace''
   \<and> Sandbox_read (\<lambda>f. None) ''/home/u'' ''/ws'' ''../outside.txt'' = Inl ''Path outside workspace''
   \<and> prefix (''/ws'' @ sep) (''/ws'' @ sep @ ''a/../../x'')
   \<and> safeResolve ''/home/u'' ''/ws'' ''a/../../x'' = Inl ''Path outside workspace''
   \<and> prefix ''/ws'' (resolve ''/home/u'' [''/ws'', ''../ws2/x''])
   \<and> safeResolve ''/home/u'' ''/ws'' ''../ws2/x'' = Inl ''Path outside workspace''
   \<and> safeResolve ''/home/u'' ''/ws'' ''sub/../a.txt'' = Inr ''/ws/a.txt''
   \<and> prefix (''/ws'' @ sep) ''/ws/a.txt''"
proof -
  have e1: "escapes ''/home/u'' ''/ws'' ''../outside.txt''"
    and e2: "escapes ''/home/u'' ''/ws'' ''a/../../x''"
    and e3: "escapes ''/home/u'' ''/ws'' ''../ws2/x''"
    by (simp_all add: escapes_def resolve_eval sep_def)
  have ok: "safeResolve ''/home/u'' ''/ws'' ''sub/../a.txt'' = Inr ''/ws/a.txt''"
    by (simp add: safeResolve_def resolve_eval sep_def)
  note T1 = safeResolve_contained[of "''/home/u''" "''/ws''" "''../outside.txt''"]
  note T2 = safeResolve_contained[of "''/home/u''" "''/ws''" "''a/../../x''"]
  note T3 = safeResolve_contained[of "''/home/u''" "''/ws''" "''../ws2/x''"]
  note T4 = safeResolve_contained[of "''/home/u''" "''/ws''" "''sub/../a.txt''"]
  from T1 e1 have "safeResolve ''/home/u'' ''/ws'' ''../outside.txt'' = Inl ''Path outside workspace''"
    and "Sandbox_read (\<lambda>f. None) ''/home/u'' ''/ws'' ''../outside.txt'' = Inl ''Path outside workspace''"
    by blast+
  moreover from T2 e2 have "safeResolve ''/home/u'' ''/ws'' ''a/../../x'' = Inl ''Path outside workspace''"
    by blast
  moreover from T3 e3 have "safeResolve ''/home/u'' ''/ws'' ''../ws2/x'' = Inl ''Path outside workspace''"
    by blast
  moreover from T4 ok have "''/ws/a.txt'' = ''/ws'' \<or> prefix (''/ws'' @ sep) ''/ws/a.txt''"
    by blast
  ultimately show ?thesis using e1 ok by (simp add: resolve_eval sep_def)
qed

section \<open>Readable streams\<close>

text \<open>
  The input is a paused Node \<open>Readable\<close>. Its state is the internal buffer and what the
  producer will still do: push the remaining chunks, in order, and then end the stream.
  \<open>Ended\<close> says that the producer has ended the stream and \<open>'end'\<close> has not been emitted
  yet, \<open>EndEmitted\<close> that it has (\<open>readableEnded\<close>). \<open>read()\<close> without a size returns the whole
  buffer, or \<open>null\<close> when it is empty; \<open>unshift\<close> puts bytes back at the front. A pending
  reader is notified in this order: \<open>'readable'\<close> when a chunk arrives, \<open>'readable'\<close> when the
  producer ends, and \<open>'end'\<close> once the buffer has been read empty after that. The producer's
  actions reach the reader one at a time. The stream does not fail: \<open>'error'\<close> is never
  emitted, so the \<open>onError\<close> handler of \<open>readBytes\<close> never runs.
\<close>

type_synonym Buffer = "char list"

datatype producer = Writing "Buffer list" | Ended | EndEmitted

record Readable =
  buffered :: Buffer
  producer :: producer

definition readableEnded :: "Readable \<Rightarrow> bool" where
  "readableEnded s = (producer s = EndEmitted)"

definition stream_read :: "Readable \<Rightarrow> Buffer option \<times> Readable" where
  "stream_read s = (if buffered s = [] then (None, s) else (Some (buffered s), s\<lparr>buffered := []\<rparr>))"

definition unshift :: "Buffer \<Rightarrow> Readable \<Rightarrow> Readable" where
  "unshift chunk s = s\<lparr>buffered := chunk @ buffered s\<rparr>"

text \<open>The bytes a reader can still obtain from a stream, whatever their chunking.\<close>

definition pending_bytes :: "producer \<Rightarrow> Buffer" where
  "pending_bytes p = (case p of Writing cs \<Rightarrow> concat cs | Ended \<Rightarrow> [] | EndEmitted \<Rightarrow> [])"

definition remaining :: "Readable \<Rightarrow> Buffer" where
  "remaining s = buffered s @ pending_bytes (producer s)"

text \<open>Between two reads the producer may act: \<open>deliver n\<close> lets it take \<open>n\<close> steps.\<close>

fun deliver :: "nat \<Rightarrow> Readable \<Rightarrow> Readable" where
  "deliver 0 s = s"
| "deliver (Suc n) s =
     (case producer s of
        Writing (c # cs) \<Rightarrow> deliver n (s\<lparr>buffered := buffered s @ c, producer := Writing cs\<rparr>)
      | Writing [] \<Rightarrow> deliver n (s\<lparr>producer := Ended\<rparr>)
      | Ended \<Rightarrow> s
      | EndEmitted \<Rightarrow> s)"

section \<open>Framed transport\<close>

definition LF :: char where "LF = CHR 0x0A"
definition CR :: char where "CR = CHR 0x0D"
definition CRLF :: string where "CRLF = [CR, LF]"

text \<open>\<open>indexOf\<close> of buffers and strings; \<open>None\<close> stands for \<open>-1\<close>.\<close>

fun indexOf :: "'a list \<Rightarrow> 'a \<Rightarrow> nat option" where
  "indexOf [] c = None"
| "indexOf (x # xs) c = (if x = c then Some 0 else map_option Suc (indexOf xs c))"

text \<open>A promise that is still pending keeps the chunks its handlers have accumulated.\<close>

datatype 'a promise = Pending "Buffer list" | Settled 'a

subsection \<open>readLine\<close>

fun scan_chunks :: "nat \<Rightarrow> Buffer list \<Rightarrow> nat option" where
  "scan_chunks offset [] = None"
| "scan_chunks offset (chunk # chunks) =
     (case indexOf chunk LF of
        Some idx \<Rightarrow> Some (offset + idx + 1)
      | None \<Rightarrow> scan_chunks (offset + length chunk) chunks)"

definition tryResolve :: "Buffer list \<Rightarrow> Readable \<Rightarrow> (Buffer \<times> Readable) option" where
  "tryResolve chunks s =
     (case scan_chunks 0 chunks of
        None \<Rightarrow> None
      | Some lineLen \<Rightarrow>
          (let buffer = concat chunks; line = take lineLen buffer; rest = drop lineLen buffer
           in Some (line, if rest \<noteq> [] then unshift rest s else s)))"

text \<open>
  The promise of \<open>readLine\<close>. \<open>scan_chunks\<close> is the loop of \<open>tryResolve\<close> that looks for the
  first chunk holding a line feed; \<open>tryResolve\<close> then cuts the line off the concatenated
  chunks and puts the rest back. \<open>readLine_onReadable\<close> is the handler \<open>onReadable\<close>: it
  reads until \<open>read()\<close> returns \<open>null\<close>, and resolves with \<open>null\<close> when the stream has
  ended with nothing accumulated. \<open>readLine_onEnd\<close> is the handler \<open>onEnd\<close>.
  \<open>readLine_await\<close> is the promise while it is pending: when \<open>'end'\<close> has been emitted
  already, the executor itself calls \<open>onEnd\<close>; when the producer has ended, \<open>'end'\<close> is
  emitted, the buffer having been read empty; otherwise the next action of the producer
  emits \<open>'readable'\<close>. \<open>readLine\<close> is the executor, which calls \<open>onReadable\<close> first.
\<close>

function readLine_onReadable :: "Buffer list \<Rightarrow> Readable \<Rightarrow> Buffer option promise \<times> Readable" where
  "readLine_onReadable chunks s =
     (case stream_read s of
        (Some chunk, s') \<Rightarrow>
          (case tryResolve (chunks @ [chunk]) s' of
             Some (line, s'') \<Rightarrow> (Settled (Some line), s'')
           | None \<Rightarrow> readLine_onReadable (chunks @ [chunk]) s')
      | (None, s') \<Rightarrow>
          (if readableEnded s' \<and> chunks = [] then (Settled None, s') else (Pending chunks, s')))"
  by pat_completeness auto
termination
  by (relation "measure (\<lambda>(chunks, s). length (buffered s))")
    (auto simp: stream_read_def split: if_splits)

declare readLine_onReadable.simps [simp del]

definition readLine_onEnd :: "Buffer list \<Rightarrow> Readable \<Rightarrow> Buffer option \<times> Readable" where
  "readLine_onEnd chunks s =
     (case tryResolve chunks s of Some (line, s') \<Rightarrow> (Some line, s') | None \<Rightarrow> (None, s))"

lemma readLine_onReadable_producer:
  "readLine_onReadable chunks s = (r, s') \<Longrightarrow> producer s' = producer s"
proof (induction chunks s arbitrary: r s' rule: readLine_onReadable.induct)
  case (1 chunks s)
  show ?case
  proof (cases "buffered s = []")
    case True
    with "1.prems" show ?thesis
      by (auto simp: readLine_onReadable.simps[of chunks s] stream_read_def split: if_splits)
  next
    case False
    then have sr: "stream_read s = (Some (buffered s), s\<lparr>buffered := []\<rparr>)"
      by (simp add: stream_read_def)
    show ?thesis
    proof (cases "tryResolve (chunks @ [buffered s]) (s\<lparr>buffered := []\<rparr>)")
      case None
      with "1.prems" sr have "readLine_onReadable (chunks @ [buffered s]) (s\<lparr>buffered := []\<rparr>) = (r, s')"
        by (simp add: readLine_onReadable.simps[of chunks s])
      from "1.IH"[OF sr[symmetric] refl None this] show ?thesis by simp
    next
      case (Some a)
      with "1.prems" sr show ?thesis
        by (auto simp: readLine_onReadable.simps[of chunks s] tryResolve_def unshift_def Let_def
            split: option.splits if_splits)
    qed
  qed
qed

fun producer_steps :: "producer \<Rightarrow> nat" where
  "producer_steps (Writing cs) = length cs + 2"
| "producer_steps Ended = 1"
| "producer_steps EndEmitted = 0"

function readLine_await :: "Buffer list \<Rightarrow> Readable \<Rightarrow> Buffer option \<times> Readable" where
  "readLine_await chunks s =
     (case producer s of
        EndEmitted \<Rightarrow> readLine_onEnd chunks s
      | Ended \<Rightarrow> readLine_onEnd chunks (s\<lparr>producer := EndEmitted\<rparr>)
      | Writing [] \<Rightarrow>
          (case readLine_onReadable chunks (s\<lparr>producer := Ended\<rparr>) of
             (Settled r, s') \<Rightarrow> (r, s')
           | (Pending chunks', s') \<Rightarrow> readLine_await chunks' s')
      | Writing (c # cs) \<Rightarrow>
          (case readLine_onReadable chunks (s\<lparr>buffered := buffered s @ c, producer := Writing cs\<rparr>) of
             (Settled r, s') \<Rightarrow> (r, s')
           | (Pending chunks', s') \<Rightarrow> readLine_await chunks' s'))"
  by pat_completeness auto
termination
proof (relation "measure (\<lambda>(chunks, s). producer_steps (producer s))", goal_cases)
  case 1
  show ?case by simp
next
  case (2 chunks s x1 x y x1a)
  from readLine_onReadable_producer[OF 2(3)[symmetric]] 2(1) show ?case by simp
next
  case (3 chunks s x1 c cs x y x1a)
  from readLine_onReadable_producer[OF 3(3)[symmetric]] 3(1,2) show ?case by simp
qed

declare readLine_await.simps [simp del]

definition readLine :: "Readable \<Rightarrow> Buffer option \<times> Readable" where
  "readLine s =
     (case readLine_onReadable [] s of
        (Settled r, s') \<Rightarrow> (r, s')
      | (Pending chunks, s') \<Rightarrow> readLine_await chunks s')"


subsection \<open>What readLine computes\<close>

text \<open>The first line of a byte sequence, with its line feed, and the bytes behind it.\<close>

definition split_line :: "Buffer \<Rightarrow> (Buffer \<times> Buffer) option" where
  "split_line bytes =
     (if LF \<in> set bytes
      then Some (takeWhile (\<lambda>c. c \<noteq> LF) bytes @ [LF], tl (dropWhile (\<lambda>c. c \<noteq> LF) bytes))
      else None)"

lemma indexOf_spec:
  "indexOf xs c = (if c \<in> set xs then Some (length (takeWhile (\<lambda>x. x \<noteq> c) xs)) else None)"
  by (induction xs) auto

lemma scan_chunks_spec:
  "scan_chunks offset chunks =
     (if LF \<in> set (concat chunks)
      then Some (offset + length (takeWhile (\<lambda>c. c \<noteq> LF) (concat chunks)) + 1)
      else None)"
proof (induction chunks arbitrary: offset)
  case Nil
  show ?case by simp
next
  case (Cons chunk chunks)
  show ?case
  proof (cases "LF \<in> set chunk")
    case True
    then have "takeWhile (\<lambda>c. c \<noteq> LF) (chunk @ concat chunks) = takeWhile (\<lambda>c. c \<noteq> LF) chunk"
      by (metis (mono_tags, lifting) takeWhile_append1 takeWhile_eq_all_conv takeWhile_idem)
    with True show ?thesis by (simp add: indexOf_spec)
  next
    case False
    then have "takeWhile (\<lambda>c. c \<noteq> LF) (chunk @ concat chunks) = chunk @ takeWhile (\<lambda>c. c \<noteq> LF) (concat chunks)"
      by (intro takeWhile_append2) auto
    with False Cons show ?thesis by (simp add: indexOf_spec)
  qed
qed

lemma split_line_decompose:
  assumes "LF \<in> set bytes"
  shows "bytes = takeWhile (\<lambda>c. c \<noteq> LF) bytes @ LF # tl (dropWhile (\<lambda>c. c \<noteq> LF) bytes)"
proof -
  have "dropWhile (\<lambda>c. c \<noteq> LF) bytes \<noteq> []" using assms by (simp add: dropWhile_eq_Nil_conv)
  moreover have "hd (dropWhile (\<lambda>c. c \<noteq> LF) bytes) = LF"
    using assms hd_dropWhile[of "\<lambda>c. c \<noteq> LF" bytes] by (simp add: dropWhile_eq_Nil_conv)
  ultimately have "dropWhile (\<lambda>c. c \<noteq> LF) bytes = LF # tl (dropWhile (\<lambda>c. c \<noteq> LF) bytes)"
    by (cases "dropWhile (\<lambda>c. c \<noteq> LF) bytes") auto
  then show ?thesis using takeWhile_dropWhile_id[of "\<lambda>c. c \<noteq> LF" bytes] by simp
qed

lemma tryResolve_spec:
  "tryResolve chunks s =
     (case split_line (concat chunks) of
        None \<Rightarrow> None
      | Some (line, rest) \<Rightarrow> Some (line, if rest \<noteq> [] then unshift rest s else s))"
proof (cases "LF \<in> set (concat chunks)")
  case False
  then show ?thesis by (simp add: tryResolve_def scan_chunks_spec split_line_def)
next
  case True
  let ?b = "concat chunks"
  let ?n = "length (takeWhile (\<lambda>c. c \<noteq> LF) ?b)"
  have d: "?b = takeWhile (\<lambda>c. c \<noteq> LF) ?b @ LF # tl (dropWhile (\<lambda>c. c \<noteq> LF) ?b)"
    using True by (rule split_line_decompose)
  have t: "take (?n + 1) ?b = takeWhile (\<lambda>c. c \<noteq> LF) ?b @ [LF]"
    by (subst d) simp
  have r: "drop (?n + 1) ?b = tl (dropWhile (\<lambda>c. c \<noteq> LF) ?b)"
    by (subst d) simp
  have sc: "scan_chunks 0 chunks = Some (?n + 1)"
    using True by (simp add: scan_chunks_spec)
  have sp: "split_line ?b = Some (take (?n + 1) ?b, drop (?n + 1) ?b)"
    using True t r by (simp add: split_line_def)
  show ?thesis
    unfolding tryResolve_def sc sp by (simp add: Let_def)
qed

lemma split_line_skip:
  assumes "LF \<notin> set xs"
  shows "split_line (xs @ ys) = map_option (\<lambda>(l, r). (xs @ l, r)) (split_line ys)"
proof -
  have "takeWhile (\<lambda>c. c \<noteq> LF) (xs @ ys) = xs @ takeWhile (\<lambda>c. c \<noteq> LF) ys"
    using assms by (intro takeWhile_append2) auto
  moreover have "dropWhile (\<lambda>c. c \<noteq> LF) (xs @ ys) = dropWhile (\<lambda>c. c \<noteq> LF) ys"
    using assms by (intro dropWhile_append2) auto
  ultimately show ?thesis using assms by (simp add: split_line_def)
qed

lemma split_line_hit:
  "split_line xs = Some (l, r) \<Longrightarrow> split_line (xs @ ys) = Some (l, r @ ys)"
  by (auto simp: split_line_def takeWhile_append1 dropWhile_append1 dropWhile_eq_Nil_conv
      split: if_splits)

lemma split_line_None: "split_line xs = None \<longleftrightarrow> LF \<notin> set xs"
  by (simp add: split_line_def)

lemma readLine_onReadable_spec:
  assumes "LF \<notin> set (concat chunks)"
  shows "readLine_onReadable chunks s =
     (if buffered s = []
      then (if readableEnded s \<and> chunks = [] then Settled None else Pending chunks, s)
      else (case split_line (buffered s) of
              Some (line, rest) \<Rightarrow> (Settled (Some (concat chunks @ line)), s\<lparr>buffered := rest\<rparr>)
            | None \<Rightarrow> (Pending (chunks @ [buffered s]), s\<lparr>buffered := []\<rparr>)))"
proof (cases "buffered s = []")
  case True
  then show ?thesis
    by (simp add: readLine_onReadable.simps[of chunks s] stream_read_def)
next
  case False
  let ?s0 = "s\<lparr>buffered := []\<rparr>"
  have sr: "stream_read s = (Some (buffered s), ?s0)"
    using False by (simp add: stream_read_def)
  have sl: "split_line (concat (chunks @ [buffered s])) =
      map_option (\<lambda>(l, r). (concat chunks @ l, r)) (split_line (buffered s))"
    using assms by (simp add: split_line_skip)
  show ?thesis
  proof (cases "split_line (buffered s)")
    case None
    then have "tryResolve (chunks @ [buffered s]) ?s0 = None"
      by (simp add: tryResolve_spec sl del: concat_append)
    moreover have "readLine_onReadable (chunks @ [buffered s]) ?s0 = (Pending (chunks @ [buffered s]), ?s0)"
      by (simp add: readLine_onReadable.simps[of _ ?s0] stream_read_def)
    ultimately show ?thesis
      using False None sr by (simp add: readLine_onReadable.simps[of chunks s])
  next
    case (Some lr)
    obtain line rest where lr: "lr = (line, rest)" by (cases lr)
    have "tryResolve (chunks @ [buffered s]) ?s0 =
        Some (concat chunks @ line, s\<lparr>buffered := rest\<rparr>)"
      using Some lr by (simp add: tryResolve_spec sl unshift_def del: concat_append)
    then show ?thesis
      using False Some lr sr by (simp add: readLine_onReadable.simps[of chunks s])
  qed
qed

lemma readLine_await_closed:
  assumes "LF \<notin> set (concat chunks)" and "producer s = Ended \<or> producer s = EndEmitted"
  shows "readLine_await chunks s = (None, s\<lparr>producer := EndEmitted\<rparr>)"
proof -
  have "tryResolve chunks t = None" for t
    using assms(1) by (simp add: tryResolve_spec split_line_def)
  then show ?thesis
    using assms(2) by (auto simp: readLine_await.simps[of chunks s] readLine_onEnd_def)
qed

lemma readLine_await_writing:
  assumes "LF \<notin> set (concat chunks)" and "buffered s = []" and "producer s = Writing cs"
  shows "fst (readLine_await chunks s) = map_option (\<lambda>(l, r). concat chunks @ l) (split_line (concat cs))
       \<and> remaining (snd (readLine_await chunks s)) =
           (case split_line (concat cs) of None \<Rightarrow> [] | Some (l, r) \<Rightarrow> r)"
  using assms
proof (induction cs arbitrary: chunks s)
  case Nil
  let ?s1 = "s\<lparr>producer := Ended\<rparr>"
  have "readLine_onReadable chunks ?s1 = (Pending chunks, ?s1)"
    using Nil by (simp add: readLine_onReadable_spec readableEnded_def)
  moreover have "readLine_await chunks ?s1 = (None, ?s1\<lparr>producer := EndEmitted\<rparr>)"
    using Nil by (intro readLine_await_closed) simp_all
  ultimately have "readLine_await chunks s = (None, ?s1\<lparr>producer := EndEmitted\<rparr>)"
    using Nil by (simp add: readLine_await.simps[of chunks s])
  then show ?case using Nil by (simp add: split_line_def remaining_def pending_bytes_def)
next
  case (Cons c cs)
  let ?s1 = "s\<lparr>buffered := buffered s @ c, producer := Writing cs\<rparr>"
  have b1: "buffered ?s1 = c" using Cons.prems by simp
  have step: "readLine_await chunks s =
      (case readLine_onReadable chunks ?s1 of (Settled r, s') \<Rightarrow> (r, s')
       | (Pending chunks', s') \<Rightarrow> readLine_await chunks' s')"
    using Cons.prems by (simp add: readLine_await.simps[of chunks s])
  show ?case
  proof (cases "c = []")
    case True
    then have "readLine_onReadable chunks ?s1 = (Pending chunks, ?s1)"
      using Cons.prems b1 by (simp add: readLine_onReadable_spec readableEnded_def)
    then have "readLine_await chunks s = readLine_await chunks ?s1" using step by simp
    moreover have "fst (readLine_await chunks ?s1) = map_option (\<lambda>(l, r). concat chunks @ l) (split_line (concat cs))
       \<and> remaining (snd (readLine_await chunks ?s1)) =
           (case split_line (concat cs) of None \<Rightarrow> [] | Some (l, r) \<Rightarrow> r)"
      using Cons.prems True by (intro Cons.IH) simp_all
    ultimately show ?thesis using True by simp
  next
    case False
    show ?thesis
    proof (cases "split_line c")
      case None
      let ?s2 = "?s1\<lparr>buffered := []\<rparr>"
      have nl: "LF \<notin> set c" using None by (simp add: split_line_None)
      have "readLine_onReadable chunks ?s1 = (Pending (chunks @ [c]), ?s2)"
        using Cons.prems b1 False None by (simp add: readLine_onReadable_spec)
      then have "readLine_await chunks s = readLine_await (chunks @ [c]) ?s2" using step by simp
      moreover have "fst (readLine_await (chunks @ [c]) ?s2) =
            map_option (\<lambda>(l, r). concat (chunks @ [c]) @ l) (split_line (concat cs))
         \<and> remaining (snd (readLine_await (chunks @ [c]) ?s2)) =
             (case split_line (concat cs) of None \<Rightarrow> [] | Some (l, r) \<Rightarrow> r)"
        using Cons.prems nl by (intro Cons.IH) simp_all
      ultimately show ?thesis
        using nl by (auto simp: split_line_skip split: option.splits)
    next
      case (Some lr)
      obtain line rest where lr: "lr = (line, rest)" by (cases lr)
      have "readLine_onReadable chunks ?s1 = (Settled (Some (concat chunks @ line)), ?s1\<lparr>buffered := rest\<rparr>)"
        using Cons.prems b1 False Some lr by (simp add: readLine_onReadable_spec)
      then have "readLine_await chunks s = (Some (concat chunks @ line), ?s1\<lparr>buffered := rest\<rparr>)"
        using step by simp
      moreover have "split_line (concat (c # cs)) = Some (line, rest @ concat cs)"
        using Some lr split_line_hit[of c line rest "concat cs"] by simp
      ultimately show ?thesis by (simp add: remaining_def pending_bytes_def)
    qed
  qed
qed

lemma readLine_await_spec:
  assumes "LF \<notin> set (concat chunks)" and "buffered s = []"
  shows "fst (readLine_await chunks s) =
           map_option (\<lambda>(l, r). concat chunks @ l) (split_line (remaining s))
       \<and> remaining (snd (readLine_await chunks s)) =
           (case split_line (remaining s) of None \<Rightarrow> [] | Some (l, r) \<Rightarrow> r)"
proof (cases "producer s")
  case (Writing cs)
  with readLine_await_writing[OF assms this] assms(2) show ?thesis
    by (simp add: remaining_def pending_bytes_def)
next
  case Ended
  with readLine_await_closed[OF assms(1), of s] assms(2) show ?thesis
    by (simp add: remaining_def pending_bytes_def split_line_def)
next
  case EndEmitted
  with readLine_await_closed[OF assms(1), of s] assms(2) show ?thesis
    by (simp add: remaining_def pending_bytes_def split_line_def)
qed

text \<open>\<open>readLine\<close> depends on the remaining bytes only, not on their chunking or on
  when the producer ends.\<close>

lemma readLine_spec:
  "fst (readLine s) = map_option fst (split_line (remaining s))
   \<and> remaining (snd (readLine s)) = (case split_line (remaining s) of None \<Rightarrow> [] | Some (l, r) \<Rightarrow> r)"
proof (cases "buffered s = []")
  case True
  show ?thesis
  proof (cases "readableEnded s")
    case True
    with \<open>buffered s = []\<close> show ?thesis
      by (simp add: readLine_def readLine_onReadable_spec readableEnded_def remaining_def
          pending_bytes_def split_line_def)
  next
    case False
    with \<open>buffered s = []\<close> have "readLine s = readLine_await [] s"
      by (simp add: readLine_def readLine_onReadable_spec)
    moreover have "(\<lambda>(l, r). concat [] @ l) = (fst :: Buffer \<times> Buffer \<Rightarrow> Buffer)" by auto
    ultimately show ?thesis
      using readLine_await_spec[of "[]" s] \<open>buffered s = []\<close> by simp
  qed
next
  case False
  show ?thesis
  proof (cases "split_line (buffered s)")
    case None
    let ?s0 = "s\<lparr>buffered := []\<rparr>"
    have nl: "LF \<notin> set (buffered s)" using None by (simp add: split_line_None)
    have "readLine s = readLine_await [buffered s] ?s0"
      using False None by (simp add: readLine_def readLine_onReadable_spec)
    moreover have "remaining s = buffered s @ remaining ?s0" by (simp add: remaining_def)
    ultimately show ?thesis
      using readLine_await_spec[of "[buffered s]" ?s0] nl
      by (auto simp: split_line_skip split: option.splits)
  next
    case (Some lr)
    obtain line rest where lr: "lr = (line, rest)" by (cases lr)
    have "readLine s = (Some line, s\<lparr>buffered := rest\<rparr>)"
      using False Some lr by (simp add: readLine_def readLine_onReadable_spec)
    moreover have "split_line (remaining s) = Some (line, rest @ pending_bytes (producer s))"
      using Some lr by (simp add: remaining_def split_line_hit)
    ultimately show ?thesis by (simp add: remaining_def)
  qed
qed

subsection \<open>readBytes\<close>

text \<open>
  The promise of \<open>readBytes\<close>, built like that of \<open>readLine\<close>: \<open>onReadable\<close> resolves as soon
  as the accumulated chunks hold \<open>len\<close> bytes and puts the surplus back; \<open>onEnd\<close> rejects
  with \<open>Stream ended\<close>.
\<close>

function readBytes_onReadable :: "nat \<Rightarrow> Buffer list \<Rightarrow> Readable \<Rightarrow> Buffer throws promise \<times> Readable" where
  "readBytes_onReadable len chunks s =
     (case stream_read s of
        (Some chunk, s') \<Rightarrow>
          (let chunks' = chunks @ [chunk]; total = length (concat chunks') in
           if total \<ge> len
           then (let buffer = concat chunks'; exact = take len buffer; rest = drop len buffer
                 in (Settled (Inr exact), if rest \<noteq> [] then unshift rest s' else s'))
           else readBytes_onReadable len chunks' s')
      | (None, s') \<Rightarrow> (Pending chunks, s'))"
  by pat_completeness auto
termination
  by (relation "measure (\<lambda>(len, chunks, s). length (buffered s))")
    (auto simp: stream_read_def split: if_splits)

declare readBytes_onReadable.simps [simp del]

lemma readBytes_onReadable_spec:
  assumes "length (concat chunks) < len"
  shows "readBytes_onReadable len chunks s =
     (if buffered s = [] then (Pending chunks, s)
      else if len \<le> length (concat chunks) + length (buffered s)
      then (Settled (Inr (take len (concat chunks @ buffered s))),
            s\<lparr>buffered := drop len (concat chunks @ buffered s)\<rparr>)
      else (Pending (chunks @ [buffered s]), s\<lparr>buffered := []\<rparr>))"
proof (cases "buffered s = []")
  case True
  then show ?thesis
    by (simp add: readBytes_onReadable.simps[of len chunks s] stream_read_def)
next
  case False
  let ?s0 = "s\<lparr>buffered := []\<rparr>"
  have sr: "stream_read s = (Some (buffered s), ?s0)"
    using False by (simp add: stream_read_def)
  have again: "readBytes_onReadable len (chunks @ [buffered s]) ?s0 = (Pending (chunks @ [buffered s]), ?s0)"
    by (simp add: readBytes_onReadable.simps[of len _ ?s0] stream_read_def)
  show ?thesis
    using False sr again assms
    by (auto simp: readBytes_onReadable.simps[of len chunks s] Let_def unshift_def)
qed

lemma readBytes_onReadable_producer:
  "readBytes_onReadable len chunks s = (r, s') \<Longrightarrow> producer s' = producer s"
proof (induction len chunks s arbitrary: r s' rule: readBytes_onReadable.induct)
  case (1 len chunks s)
  show ?case
  proof (cases "buffered s = []")
    case True
    with "1.prems" show ?thesis
      by (auto simp: readBytes_onReadable.simps[of len chunks s] stream_read_def)
  next
    case False
    let ?s0 = "s\<lparr>buffered := []\<rparr>"
    have sr: "stream_read s = (Some (buffered s), ?s0)"
      using False by (simp add: stream_read_def)
    show ?thesis
    proof (cases "len \<le> length (concat (chunks @ [buffered s]))")
      case True
      with "1.prems" sr show ?thesis
        by (auto simp: readBytes_onReadable.simps[of len chunks s] Let_def unshift_def
            split: if_splits)
    next
      case False
      with "1.prems" sr have "readBytes_onReadable len (chunks @ [buffered s]) ?s0 = (r, s')"
        by (simp add: readBytes_onReadable.simps[of len chunks s] Let_def)
      from "1.IH"[OF sr[symmetric] refl refl refl False this] show ?thesis by simp
    qed
  qed
qed

function readBytes_await :: "nat \<Rightarrow> Buffer list \<Rightarrow> Readable \<Rightarrow> Buffer throws \<times> Readable" where
  "readBytes_await len chunks s =
     (case producer s of
        EndEmitted \<Rightarrow> (Inl ''Stream ended'', s)
      | Ended \<Rightarrow> (Inl ''Stream ended'', s\<lparr>producer := EndEmitted\<rparr>)
      | Writing [] \<Rightarrow>
          (case readBytes_onReadable len chunks (s\<lparr>producer := Ended\<rparr>) of
             (Settled r, s') \<Rightarrow> (r, s')
           | (Pending chunks', s') \<Rightarrow> readBytes_await len chunks' s')
      | Writing (c # cs) \<Rightarrow>
          (case readBytes_onReadable len chunks (s\<lparr>buffered := buffered s @ c, producer := Writing cs\<rparr>) of
             (Settled r, s') \<Rightarrow> (r, s')
           | (Pending chunks', s') \<Rightarrow> readBytes_await len chunks' s'))"
  by pat_completeness auto
termination
proof (relation "measure (\<lambda>(len, chunks, s). producer_steps (producer s))", goal_cases)
  case 1
  show ?case by simp
next
  case (2 len chunks s x1 x y x1a)
  from readBytes_onReadable_producer[OF 2(3)[symmetric]] 2(1) show ?case by simp
next
  case (3 len chunks s x1 c cs x y x1a)
  from readBytes_onReadable_producer[OF 3(3)[symmetric]] 3(1,2) show ?case by simp
qed

declare readBytes_await.simps [simp del]

definition readBytes :: "nat \<Rightarrow> Readable \<Rightarrow> Buffer throws \<times> Readable" where
  "readBytes len s =
     (case readBytes_onReadable len [] s of
        (Settled r, s') \<Rightarrow> (r, s')
      | (Pending chunks, s') \<Rightarrow> readBytes_await len chunks s')"


lemma readBytes_await_closed:
  assumes "producer s = Ended \<or> producer s = EndEmitted"
  shows "readBytes_await len chunks s = (Inl ''Stream ended'', s\<lparr>producer := EndEmitted\<rparr>)"
  using assms by (auto simp: readBytes_await.simps[of len chunks s])

lemma readBytes_await_writing:
  assumes "length (concat chunks) < len" and "buffered s = []" and "producer s = Writing cs"
  shows "fst (readBytes_await len chunks s) =
           (if len \<le> length (concat chunks @ concat cs)
            then Inr (take len (concat chunks @ concat cs)) else Inl ''Stream ended'')
       \<and> remaining (snd (readBytes_await len chunks s)) = drop len (concat chunks @ concat cs)"
  using assms
proof (induction cs arbitrary: chunks s)
  case Nil
  let ?s1 = "s\<lparr>producer := Ended\<rparr>"
  have "readBytes_onReadable len chunks ?s1 = (Pending chunks, ?s1)"
    using Nil by (simp add: readBytes_onReadable_spec)
  moreover have "readBytes_await len chunks ?s1 = (Inl ''Stream ended'', ?s1\<lparr>producer := EndEmitted\<rparr>)"
    by (intro readBytes_await_closed) simp
  ultimately have "readBytes_await len chunks s = (Inl ''Stream ended'', ?s1\<lparr>producer := EndEmitted\<rparr>)"
    using Nil by (simp add: readBytes_await.simps[of len chunks s])
  then show ?case using Nil by (simp add: remaining_def pending_bytes_def)
next
  case (Cons c cs)
  let ?s1 = "s\<lparr>buffered := buffered s @ c, producer := Writing cs\<rparr>"
  have b1: "buffered ?s1 = c" using Cons.prems by simp
  have step: "readBytes_await len chunks s =
      (case readBytes_onReadable len chunks ?s1 of (Settled r, s') \<Rightarrow> (r, s')
       | (Pending chunks', s') \<Rightarrow> readBytes_await len chunks' s')"
    using Cons.prems by (simp add: readBytes_await.simps[of len chunks s])
  show ?case
  proof (cases "c = []")
    case True
    then have "readBytes_onReadable len chunks ?s1 = (Pending chunks, ?s1)"
      using Cons.prems b1 by (simp add: readBytes_onReadable_spec)
    then have "readBytes_await len chunks s = readBytes_await len chunks ?s1" using step by simp
    moreover have "fst (readBytes_await len chunks ?s1) =
           (if len \<le> length (concat chunks @ concat cs)
            then Inr (take len (concat chunks @ concat cs)) else Inl ''Stream ended'')
       \<and> remaining (snd (readBytes_await len chunks ?s1)) = drop len (concat chunks @ concat cs)"
      using Cons.prems True by (intro Cons.IH) simp_all
    ultimately show ?thesis using True by simp
  next
    case False
    show ?thesis
    proof (cases "len \<le> length (concat chunks) + length c")
      case True
      have "readBytes_onReadable len chunks ?s1 =
          (Settled (Inr (take len (concat chunks @ c))), ?s1\<lparr>buffered := drop len (concat chunks @ c)\<rparr>)"
        using Cons.prems b1 False True by (simp add: readBytes_onReadable_spec)
      then have "readBytes_await len chunks s =
          (Inr (take len (concat chunks @ c)), ?s1\<lparr>buffered := drop len (concat chunks @ c)\<rparr>)"
        using step by simp
      then show ?thesis using True by (simp add: remaining_def pending_bytes_def)
    next
      case nomore: False
      let ?s2 = "?s1\<lparr>buffered := []\<rparr>"
      have "readBytes_onReadable len chunks ?s1 = (Pending (chunks @ [c]), ?s2)"
        using Cons.prems b1 False nomore by (simp add: readBytes_onReadable_spec)
      then have "readBytes_await len chunks s = readBytes_await len (chunks @ [c]) ?s2" using step by simp
      moreover have "fst (readBytes_await len (chunks @ [c]) ?s2) =
           (if len \<le> length (concat (chunks @ [c]) @ concat cs)
            then Inr (take len (concat (chunks @ [c]) @ concat cs)) else Inl ''Stream ended'')
         \<and> remaining (snd (readBytes_await len (chunks @ [c]) ?s2)) =
             drop len (concat (chunks @ [c]) @ concat cs)"
        using Cons.prems nomore by (intro Cons.IH) simp_all
      ultimately show ?thesis by simp
    qed
  qed
qed

text \<open>\<open>readBytes\<close> depends on the remaining bytes only: it returns their first \<open>len\<close> bytes
  and leaves the rest, or rejects when the stream ends before \<open>len\<close> bytes have come.\<close>

lemma readBytes_spec:
  assumes "0 < len"
  shows "fst (readBytes len s) =
           (if len \<le> length (remaining s) then Inr (take len (remaining s)) else Inl ''Stream ended'')
       \<and> remaining (snd (readBytes len s)) = drop len (remaining s)"
proof -
  have await: "fst (readBytes_await len chunks t) =
           (if len \<le> length (concat chunks @ remaining t)
            then Inr (take len (concat chunks @ remaining t)) else Inl ''Stream ended'')
       \<and> remaining (snd (readBytes_await len chunks t)) = drop len (concat chunks @ remaining t)"
    if "length (concat chunks) < len" "buffered t = []" for chunks t
  proof (cases "producer t")
    case (Writing cs)
    with readBytes_await_writing[OF that this] that(2) show ?thesis
      by (simp add: remaining_def pending_bytes_def)
  next
    case Ended
    with readBytes_await_closed[of t len chunks] that show ?thesis
      by (simp add: remaining_def pending_bytes_def)
  next
    case EndEmitted
    with readBytes_await_closed[of t len chunks] that show ?thesis
      by (simp add: remaining_def pending_bytes_def)
  qed
  show ?thesis
  proof (cases "buffered s = []")
    case True
    then have "readBytes len s = readBytes_await len [] s"
      using assms by (simp add: readBytes_def readBytes_onReadable_spec)
    with await[of "[]" s] True assms show ?thesis by simp
  next
    case False
    show ?thesis
    proof (cases "len \<le> length (buffered s)")
      case True
      have "readBytes len s = (Inr (take len (buffered s)), s\<lparr>buffered := drop len (buffered s)\<rparr>)"
        using assms False True by (simp add: readBytes_def readBytes_onReadable_spec)
      then show ?thesis using True by (simp add: remaining_def)
    next
      case short: False
      let ?s0 = "s\<lparr>buffered := []\<rparr>"
      have "readBytes len s = readBytes_await len [buffered s] ?s0"
        using assms False short by (simp add: readBytes_def readBytes_onReadable_spec)
      moreover have "remaining s = buffered s @ remaining ?s0" by (simp add: remaining_def)
      ultimately show ?thesis
        using await[of "[buffered s]" ?s0] short by simp
    qed
  qed
qed

subsection \<open>readHeaders\<close>

text \<open>
  Header lines are decoded as UTF-8 text and taken apart with \<open>indexOf\<close>, \<open>slice\<close>, \<open>trim\<close> and
  \<open>toLowerCase\<close>. The model works on the bytes of the line.

  \<open>trim\<close> removes white space and line terminators from both ends: the six ASCII characters
  tab, line feed, vertical tab, form feed, carriage return and space, and the characters
  U+00A0, U+1680, U+2000 to U+200A, U+2028, U+2029, U+202F, U+205F, U+3000 and U+FEFF.
  \<open>white_space\<close> lists their UTF-8 encodings. Each encoding begins with a byte that starts a
  character wherever it stands, so the decoded text begins (ends) with one of these
  characters exactly when the bytes begin (end) with its encoding, and \<open>trim\<close> can be done on
  the bytes.

  \<open>toLowerCase\<close> is modelled on the ASCII letters and \<open>indexOf(":")\<close> on the byte of the colon.
  The only header the transport looks up is \<open>content-length\<close>; no character outside ASCII
  has a lower-case form with a letter of that name in it, so a key equals \<open>content-length\<close>
  in the model exactly when it does in the code.
\<close>

definition white_space :: "string list" where
  "white_space =
     [[CHR 0x09], [CHR 0x0A], [CHR 0x0B], [CHR 0x0C], [CHR 0x0D], [CHR 0x20],
      [CHR 0xC2, CHR 0xA0], [CHR 0xE1, CHR 0x9A, CHR 0x80], [CHR 0xE2, CHR 0x80, CHR 0x80],
      [CHR 0xE2, CHR 0x80, CHR 0x81], [CHR 0xE2, CHR 0x80, CHR 0x82], [CHR 0xE2, CHR 0x80, CHR 0x83],
      [CHR 0xE2, CHR 0x80, CHR 0x84], [CHR 0xE2, CHR 0x80, CHR 0x85], [CHR 0xE2, CHR 0x80, CHR 0x86],
      [CHR 0xE2, CHR 0x80, CHR 0x87], [CHR 0xE2, CHR 0x80, CHR 0x88], [CHR 0xE2, CHR 0x80, CHR 0x89],
      [CHR 0xE2, CHR 0x80, CHR 0x8A], [CHR 0xE2, CHR 0x80, CHR 0xA8], [CHR 0xE2, CHR 0x80, CHR 0xA9],
      [CHR 0xE2, CHR 0x80, CHR 0xAF], [CHR 0xE2, CHR 0x81, CHR 0x9F], [CHR 0xE3, CHR 0x80, CHR 0x80],
      [CHR 0xEF, CHR 0xBB, CHR 0xBF]]"

function strip :: "string list \<Rightarrow> string \<Rightarrow> string" where
  "strip ws s =
     (case find (\<lambda>w. w \<noteq> [] \<and> prefix w s) ws of
        None \<Rightarrow> s
      | Some w \<Rightarrow> strip ws (drop (length w) s))"
  by pat_completeness auto
termination
proof (relation "measure (\<lambda>(ws, s). length s)")
  show "wf (measure (\<lambda>(ws, s). length s))" by simp
next
  fix ws :: "string list" and s w :: string
  assume "find (\<lambda>w. w \<noteq> [] \<and> prefix w s) ws = Some w"
  then have "w \<noteq> []" and "prefix w s" by (auto simp: find_Some_iff)
  then have "length (drop (length w) s) < length s" by (cases s) (auto simp: prefix_def)
  then show "((ws, drop (length w) s), (ws, s)) \<in> measure (\<lambda>(ws, s). length s)" by simp
qed

declare strip.simps [simp del]

definition trimStart :: "string \<Rightarrow> string" where
  "trimStart s = strip white_space s"

definition trimEnd :: "string \<Rightarrow> string" where
  "trimEnd s = rev (strip (map rev white_space) (rev s))"

definition trim :: "string \<Rightarrow> string" where
  "trim s = trimEnd (trimStart s)"

definition toLowerCase :: "string \<Rightarrow> string" where
  "toLowerCase s =
     map (\<lambda>c. if 65 \<le> (of_char c :: nat) \<and> (of_char c :: nat) \<le> 90 then char_of ((of_char c :: nat) + 32) else c) s"

type_synonym Headers = "string \<Rightarrow> string option"

definition add_header :: "string \<Rightarrow> Headers \<Rightarrow> Headers" where
  "add_header line headers =
     (case indexOf line (CHR '':'') of
        None \<Rightarrow> headers
      | Some idx \<Rightarrow> headers (toLowerCase (trim (take idx line)) \<mapsto> trim (drop (idx + 1) line)))"

lemma readLine_consumes:
  assumes "readLine s = (Some line, s')"
  shows "length (remaining s') < length (remaining s)"
proof -
  from assms readLine_spec[of s] obtain l r where sl: "split_line (remaining s) = Some (l, r)"
    and r: "remaining s' = r"
    by (cases "split_line (remaining s)") auto
  from sl have "LF \<in> set (remaining s)" by (auto simp: split_line_def split: if_splits)
  from split_line_decompose[OF this] sl have "remaining s = takeWhile (\<lambda>c. c \<noteq> LF) (remaining s) @ LF # r"
    by (auto simp: split_line_def split: if_splits)
  then have "length (remaining s) = length (takeWhile (\<lambda>c. c \<noteq> LF) (remaining s)) + 1 + length r"
    by (metis length_append length_Cons Suc_eq_plus1 add.assoc add.commute)
  with r show ?thesis by simp
qed

function readHeaders_loop :: "Headers \<Rightarrow> Readable \<Rightarrow> Headers option \<times> Readable" where
  "readHeaders_loop headers s =
     (case readLine s of
        (None, s') \<Rightarrow> (None, s')
      | (Some line, s') \<Rightarrow>
          if line = CRLF then (Some headers, s')
          else readHeaders_loop (add_header line headers) s')"
  by pat_completeness auto
termination
  by (relation "measure (\<lambda>(headers, s). length (remaining s))")
    (auto intro: readLine_consumes[OF sym])

declare readHeaders_loop.simps [simp del]

definition readHeaders :: "Readable \<Rightarrow> Headers option \<times> Readable" where
  "readHeaders s = readHeaders_loop Map.empty s"

subsection \<open>drainBody\<close>

text \<open>
  \<open>drainBody\<close> waits for the next \<open>'readable'\<close> notification and reads nothing. The
  notification comes at once when data is buffered, with the next chunk that is not empty,
  or when the producer ends the stream; after \<open>'end'\<close> has been emitted none comes and the
  promise stays pending, which is the result \<open>None\<close>. When the producer has ended an empty
  stream and \<open>'end'\<close> is not emitted yet, whether one more notification comes depends on what
  Node has already scheduled; the model takes it to come. The statements about \<open>drainBody\<close>
  below are made for both outcomes or for a stream that still holds data.
\<close>

fun drainBody_wait :: "Buffer list \<Rightarrow> Readable \<Rightarrow> Readable option" where
  "drainBody_wait [] s = Some (s\<lparr>producer := Ended\<rparr>)"
| "drainBody_wait (c # cs) s =
     (if c = [] then drainBody_wait cs (s\<lparr>producer := Writing cs\<rparr>)
      else Some (s\<lparr>buffered := buffered s @ c, producer := Writing cs\<rparr>))"

definition drainBody :: "Readable \<Rightarrow> Readable option" where
  "drainBody s =
     (if buffered s \<noteq> [] then Some s
      else case producer s of
        Writing cs \<Rightarrow> drainBody_wait cs s
      | Ended \<Rightarrow> Some s
      | EndEmitted \<Rightarrow> None)"

subsection \<open>FramedJSONRPC\<close>

text \<open>\<open>parseInt(str, 10)\<close>: leading white space, an optional sign, then the longest run of
  decimal digits; \<open>None\<close> stands for \<open>NaN\<close>. The value is the exact integer. JavaScript returns
  the nearest double: the same number for every value below \<open>2\<^sup>5\<^sup>3\<close>, a rounded one above, and
  \<open>Infinity\<close> beyond the range of doubles (which \<open>read\<close> treats as an invalid length). The
  statements about frames whose length is not the one \<open>write\<close> computed therefore bound the
  length by \<open>2\<^sup>5\<^sup>3\<close>.\<close>

definition is_digit :: "char \<Rightarrow> bool" where
  "is_digit c = (48 \<le> (of_char c :: nat) \<and> (of_char c :: nat) \<le> 57)"

definition digits_value :: "string \<Rightarrow> nat" where
  "digits_value ds = foldl (\<lambda>acc c. acc * 10 + ((of_char c :: nat) - 48)) 0 ds"

definition parseInt :: "string \<Rightarrow> int option" where
  "parseInt str =
     (let s = trimStart str;
          negative = (s \<noteq> [] \<and> hd s = CHR ''-'');
          t = (if s \<noteq> [] \<and> (hd s = CHR ''-'' \<or> hd s = CHR ''+'') then tl s else s);
          ds = takeWhile is_digit t
      in if ds = [] then None
         else Some (if negative then - int (digits_value ds) else int (digits_value ds)))"

text \<open>
  The result of one \<open>read\<close>: a decoded value, \<open>undefined\<close>, a rejection, or a promise that
  never settles. \<open>JSON.parse\<close> is a parameter: it returns the decoded value or throws with a
  message.
\<close>

datatype read_result = Message Json | Undefined | Rejected string | Unsettled

definition parse_error_request :: "string \<Rightarrow> Json" where
  "parse_error_request msg =
     JObj [(''jsonrpc'', JStr ''2.0''), (''id'', JNull), (''method'', JStr ''__internal_parse_error__''),
           (''params'', JObj [(''message'', JStr (if msg = [] then ''Parse error'' else msg))])]"

definition FramedJSONRPC_read :: "(Buffer \<Rightarrow> Json throws) \<Rightarrow> Readable \<Rightarrow> read_result \<times> Readable" where
  "FramedJSONRPC_read JSON_parse s =
     (case readHeaders s of
        (None, s1) \<Rightarrow> (Undefined, s1)
      | (Some headers, s1) \<Rightarrow>
          (let lenStr = headers ''content-length'';
               len = (case lenStr of None \<Rightarrow> None | Some str \<Rightarrow> if str = [] then None else parseInt str)
           in if len = None \<or> the len \<le> 0
              then (case drainBody s1 of None \<Rightarrow> (Unsettled, s1) | Some s2 \<Rightarrow> (Undefined, s2))
              else (case readBytes (nat (the len)) s1 of
                      (Inl e, s2) \<Rightarrow> (Rejected e, s2)
                    | (Inr buf, s2) \<Rightarrow>
                        (case JSON_parse buf of
                           Inr req \<Rightarrow> (Message req, s2)
                         | Inl msg \<Rightarrow> (Message (parse_error_request msg), s2)))))"

text \<open>\<open>write\<close> hands the object to the output, where it travels as a frame: the
  \<open>Content-Length\<close> header with the byte length of the serialised object, an empty line, and
  the serialised object.\<close>

definition frame :: "Buffer \<Rightarrow> Buffer" where
  "frame body = ''Content-Length: '' @ decimal (length body) @ CRLF @ CRLF @ body"

definition FramedJSONRPC_write :: "Json \<Rightarrow> Json list \<Rightarrow> Json list" where
  "FramedJSONRPC_write obj out = out @ [obj]"

definition wire :: "(Json \<Rightarrow> Buffer) \<Rightarrow> Json list \<Rightarrow> Buffer" where
  "wire JSON_stringify out = concat (map (\<lambda>obj. frame (JSON_stringify obj)) out)"


subsection \<open>Reading a well-formed frame\<close>

lemma digit_char_is_digit: "d < 10 \<Longrightarrow> is_digit (digit_char d)"
  by (simp add: is_digit_def digit_char_def)

lemma digit_char_value: "d < 10 \<Longrightarrow> (of_char (digit_char d) :: nat) - 48 = d"
  by (simp add: digit_char_def)

lemma decimal_digits: "list_all is_digit (decimal n)"
proof (induction n rule: decimal.induct)
  case (1 n)
  then show ?case
    by (cases "n < 10") (simp_all add: decimal.simps[of n] digit_char_is_digit)
qed

lemma decimal_nonempty: "decimal n \<noteq> []"
  by (simp add: decimal.simps[of n])

lemma digits_value_snoc:
  "digits_value (ds @ [c]) = digits_value ds * 10 + ((of_char c :: nat) - 48)"
  by (simp add: digits_value_def)

lemma digits_value_decimal: "digits_value (decimal n) = n"
proof (induction n rule: decimal.induct)
  case (1 n)
  show ?case
  proof (cases "n < 10")
    case True
    then show ?thesis by (simp add: decimal.simps[of n] digits_value_def digit_char_value)
  next
    case False
    with 1 have "digits_value (decimal (n div 10)) = n div 10" by simp
    with False show ?thesis
      by (simp add: decimal.simps[of n] digits_value_snoc digit_char_value)
  qed
qed

lemma strip_stops:
  assumes "\<forall>w \<in> set ws. \<not> (w \<noteq> [] \<and> prefix w s)"
  shows "strip ws s = s"
proof -
  from assms have "find (\<lambda>w. w \<noteq> [] \<and> prefix w s) ws = None"
    unfolding find_None_iff by blast
  then show ?thesis by (subst strip.simps) simp
qed

lemma white_space_heads:
  "list_all (\<lambda>w. w \<noteq> [] \<and> \<not> is_digit (hd w)) white_space"
  "list_all (\<lambda>w. w \<noteq> [] \<and> \<not> is_digit (hd w)) (map rev white_space)"
  by (simp_all add: white_space_def is_digit_def)

lemma strip_digit:
  assumes "is_digit d"
  shows "strip white_space (d # ds) = d # ds" and "strip (map rev white_space) (d # ds) = d # ds"
proof -
  have "\<not> (w \<noteq> [] \<and> prefix w (d # ds))" if "w \<noteq> [] \<and> \<not> is_digit (hd w)" for w
    using that assms by (cases w) auto
  then show "strip white_space (d # ds) = d # ds" "strip (map rev white_space) (d # ds) = d # ds"
    using white_space_heads by (auto intro!: strip_stops simp: list_all_iff simp del: set_map)
qed

lemma strip_space: "strip white_space (CHR '' '' # s) = strip white_space s"
  by (subst strip.simps) (simp add: white_space_def)

lemma strip_rev_CRLF: "strip (map rev white_space) (rev CRLF @ s) = strip (map rev white_space) s"
  by (subst strip.simps, simp add: white_space_def CRLF_def CR_def LF_def,
      subst strip.simps, simp add: white_space_def CRLF_def CR_def LF_def)

lemma is_digit_not_sign: "is_digit c \<Longrightarrow> c \<noteq> CHR ''-'' \<and> c \<noteq> CHR ''+''"
  by (auto simp: is_digit_def)

lemma parseInt_decimal: "parseInt (decimal n) = Some (int n)"
proof -
  obtain d ds where d: "decimal n = d # ds"
    using decimal_nonempty[of n] by (cases "decimal n") auto
  have all: "\<forall>c \<in> set (decimal n). is_digit c"
    using decimal_digits[of n] by (simp add: list_all_iff)
  then have dd: "is_digit d" using d by simp
  have dw: "trimStart (decimal n) = decimal n"
    using d dd strip_digit(1) by (simp add: trimStart_def)
  have tw: "takeWhile is_digit (decimal n) = decimal n"
    using all by (simp add: takeWhile_eq_all_conv)
  have hd: "hd (decimal n) \<noteq> CHR ''-''" "hd (decimal n) \<noteq> CHR ''+''"
    using d dd is_digit_not_sign by auto
  have t: "(if decimal n \<noteq> [] \<and> (hd (decimal n) = CHR ''-'' \<or> hd (decimal n) = CHR ''+'')
            then tl (decimal n) else decimal n) = decimal n"
    using hd by simp
  show ?thesis
    unfolding parseInt_def Let_def dw t tw using hd decimal_nonempty[of n]
    by (simp add: digits_value_decimal)
qed

lemma trim_length_value: "trim (CHR '' '' # decimal n @ CRLF) = decimal n"
proof -
  obtain d ds where d: "decimal n = d # ds"
    using decimal_nonempty[of n] by (cases "decimal n") auto
  have all: "\<forall>c \<in> set (decimal n). is_digit c"
    using decimal_digits[of n] by (simp add: list_all_iff)
  have "strip white_space (decimal n @ CRLF) = decimal n @ CRLF"
    using d all strip_digit(1)[of d "ds @ CRLF"] by simp
  then have front: "trimStart (CHR '' '' # decimal n @ CRLF) = decimal n @ CRLF"
    by (simp add: trimStart_def strip_space)
  have "rev (decimal n) \<noteq> []" using decimal_nonempty by simp
  then obtain e es where e: "rev (decimal n) = e # es" by (cases "rev (decimal n)") auto
  then have "e \<in> set (decimal n)" by (metis list.set_intros(1) set_rev)
  then have "is_digit e" using all by blast
  then have "strip (map rev white_space) (rev (decimal n)) = rev (decimal n)"
    unfolding e by (rule strip_digit(2))
  then have "strip (map rev white_space) (rev CRLF @ rev (decimal n)) = rev (decimal n)"
    by (simp only: strip_rev_CRLF)
  then have "trimEnd (decimal n @ CRLF) = decimal n"
    by (simp add: trimEnd_def)
  then show ?thesis unfolding trim_def front .
qed


definition header_block :: "nat \<Rightarrow> Buffer" where
  "header_block n = ''Content-Length: '' @ decimal n @ CRLF @ CRLF"

lemma frame_header_block: "frame body = header_block (length body) @ body"
  by (simp add: frame_def header_block_def)

lemma split_line_first:
  assumes "LF \<notin> set pre"
  shows "split_line (pre @ LF # post) = Some (pre @ [LF], post)"
proof -
  have "takeWhile (\<lambda>c. c \<noteq> LF) (pre @ LF # post) = pre"
    using assms by (auto simp: takeWhile_tail)
  moreover have "dropWhile (\<lambda>c. c \<noteq> LF) (pre @ LF # post) = LF # post"
    using assms by (auto simp: dropWhile_append3)
  ultimately show ?thesis by (simp add: split_line_def)
qed

lemma readLine_first:
  assumes "remaining s = pre @ LF # post" and "LF \<notin> set pre"
  shows "\<exists>s'. readLine s = (Some (pre @ [LF]), s') \<and> remaining s' = post"
proof -
  have "split_line (remaining s) = Some (pre @ [LF], post)"
    using assms split_line_first by simp
  with readLine_spec[of s] have "fst (readLine s) = Some (pre @ [LF])"
    and "remaining (snd (readLine s)) = post" by simp_all
  then show ?thesis by (cases "readLine s") auto
qed

lemma readLine_none:
  assumes "LF \<notin> set (remaining s)"
  shows "\<exists>s'. readLine s = (None, s') \<and> remaining s' = []"
proof -
  have "split_line (remaining s) = None" using assms by (simp add: split_line_def)
  with readLine_spec[of s] have "fst (readLine s) = None"
    and "remaining (snd (readLine s)) = []" by simp_all
  then show ?thesis by (cases "readLine s") auto
qed

lemma decimal_no_LF: "LF \<notin> set (decimal n)"
proof
  assume "LF \<in> set (decimal n)"
  then have "is_digit LF" using decimal_digits[of n] by (simp add: list_all_iff)
  then show False by (simp add: is_digit_def LF_def)
qed

lemma decimal_no_colon: "CHR '':'' \<notin> set (decimal n)"
proof
  assume "CHR '':'' \<in> set (decimal n)"
  then have "is_digit (CHR '':'')" using decimal_digits[of n] by (simp add: list_all_iff)
  then show False by (simp add: is_digit_def)
qed

lemma add_header_content_length:
  "add_header (''Content-Length: '' @ decimal n @ CRLF) Map.empty = [''content-length'' \<mapsto> decimal n]"
proof -
  let ?line = "''Content-Length: '' @ decimal n @ CRLF"
  have i: "indexOf ?line (CHR '':'') = Some 14" by simp
  have "toLowerCase (trim ''Content-Length'') = ''content-length''"
    by code_simp
  then have k: "toLowerCase (trim (take 14 ?line)) = ''content-length''"
    by simp
  have "drop (14 + 1) ?line = CHR '' '' # decimal n @ CRLF" by simp
  then have v: "trim (drop (14 + 1) ?line) = decimal n"
    by (simp only: trim_length_value)
  show ?thesis
    unfolding add_header_def i option.case k v ..
qed

lemma readHeaders_header_block:
  assumes "remaining s = header_block n @ rest"
  shows "\<exists>s'. readHeaders s = (Some [''content-length'' \<mapsto> decimal n], s') \<and> remaining s' = rest"
proof -
  define hl where "hl = ''Content-Length: '' @ decimal n @ CRLF"
  let ?pre = "''Content-Length: '' @ decimal n @ [CR]"
  have line: "?pre @ [LF] = hl"
    by (simp add: CRLF_def hl_def)
  have "remaining s = ?pre @ LF # (CRLF @ rest)"
    using assms by (simp add: header_block_def CRLF_def)
  moreover have "LF \<notin> set ?pre"
    using decimal_no_LF[of n] by (simp add: LF_def CR_def)
  ultimately obtain s1 where "readLine s = (Some (?pre @ [LF]), s1)" and r1: "remaining s1 = CRLF @ rest"
    using readLine_first by blast
  then have l1: "readLine s = (Some hl, s1)" by (simp only: line)
  have "remaining s1 = [CR] @ LF # rest" using r1 by (simp add: CRLF_def)
  moreover have "LF \<notin> set [CR]" by (simp add: LF_def CR_def)
  ultimately obtain s2 where "readLine s1 = (Some ([CR] @ [LF]), s2)" and r2: "remaining s2 = rest"
    using readLine_first by blast
  then have l2: "readLine s1 = (Some CRLF, s2)" by (simp add: CRLF_def)
  have ne: "hl \<noteq> CRLF" by (simp add: CRLF_def hl_def)
  have ah: "add_header hl Map.empty = [''content-length'' \<mapsto> decimal n]"
    unfolding hl_def by (rule add_header_content_length)
  have "readHeaders_loop [''content-length'' \<mapsto> decimal n] s1 = (Some [''content-length'' \<mapsto> decimal n], s2)"
    by (subst readHeaders_loop.simps) (simp add: l2)
  moreover have "readHeaders_loop Map.empty s = readHeaders_loop (add_header hl Map.empty) s1"
    by (subst readHeaders_loop.simps) (simp add: l1 ne)
  ultimately have "readHeaders s = (Some [''content-length'' \<mapsto> decimal n], s2)"
    by (simp add: readHeaders_def ah)
  with r2 show ?thesis by blast
qed

text \<open>One \<open>read\<close> on a stream whose remaining bytes begin with a frame returns the decoded
  body and leaves the bytes behind the frame.\<close>

lemma read_frame:
  assumes "remaining s = frame body @ rest" and "body \<noteq> []"
  shows "\<exists>s'. FramedJSONRPC_read JSON_parse s =
           (case JSON_parse body of Inr req \<Rightarrow> Message req
            | Inl msg \<Rightarrow> Message (parse_error_request msg), s')
         \<and> remaining s' = rest"
proof -
  let ?n = "length body"
  have "remaining s = header_block ?n @ body @ rest"
    using assms(1) by (simp add: frame_header_block)
  then obtain s1 where s1: "readHeaders s = (Some [''content-length'' \<mapsto> decimal ?n], s1)"
      "remaining s1 = body @ rest"
    using readHeaders_header_block by blast
  have pos: "0 < ?n" using assms(2) by simp
  from readBytes_spec[OF pos, of s1] s1(2)
  have "fst (readBytes ?n s1) = Inr body" and "remaining (snd (readBytes ?n s1)) = rest"
    by simp_all
  then obtain s2 where s2: "readBytes ?n s1 = (Inr body, s2)" "remaining s2 = rest"
    by (cases "readBytes ?n s1") auto
  have "FramedJSONRPC_read JSON_parse s =
           (case JSON_parse body of Inr req \<Rightarrow> Message req
            | Inl msg \<Rightarrow> Message (parse_error_request msg), s2)"
    using s1(1) s2(1) pos decimal_nonempty[of ?n]
    by (simp add: FramedJSONRPC_read_def parseInt_decimal split: sum.splits)
  with s2(2) show ?thesis by blast
qed

subsection \<open>Well-formed frames\<close>

text \<open>
  A frame is a run of header lines, the empty line, and a body. A header line is ASCII text
  that ends with its only line feed and is not the empty line. The frame is well formed
  when the length that \<open>read\<close> takes from the parsed headers is the length of the body, which
  is not empty and whose length is a safe integer (at most \<open>2\<^sup>5\<^sup>3 - 1\<close>, so that \<open>parseInt\<close>
  returns the declared length exactly).
\<close>

definition ascii :: "Buffer \<Rightarrow> bool" where
  "ascii l = list_all (\<lambda>c. (of_char c :: nat) < 128) l"

definition header_line :: "Buffer \<Rightarrow> bool" where
  "header_line l = (l \<noteq> [] \<and> ascii l \<and> last l = LF \<and> LF \<notin> set (butlast l) \<and> l \<noteq> CRLF)"

definition MAX_SAFE_INTEGER :: int where
  "MAX_SAFE_INTEGER = 2 ^ 53 - 1"

definition parse_headers :: "Buffer list \<Rightarrow> Headers" where
  "parse_headers ls = foldl (\<lambda>headers line. add_header line headers) Map.empty ls"

definition declared_length :: "Headers \<Rightarrow> int option" where
  "declared_length headers =
     (case headers ''content-length'' of None \<Rightarrow> None
      | Some str \<Rightarrow> if str = [] then None else parseInt str)"

definition framed :: "Buffer list \<Rightarrow> Buffer \<Rightarrow> Buffer" where
  "framed header_lines body = concat header_lines @ CRLF @ body"

definition well_formed_frame :: "Buffer list \<Rightarrow> Buffer \<Rightarrow> bool" where
  "well_formed_frame header_lines body =
     (list_all header_line header_lines \<and> body \<noteq> [] \<and> int (length body) \<le> MAX_SAFE_INTEGER
      \<and> declared_length (parse_headers header_lines) = Some (int (length body)))"

lemma readHeaders_loop_lines:
  assumes "list_all header_line ls" and "remaining s = concat ls @ CRLF @ rest"
  shows "\<exists>s'. readHeaders_loop headers s =
            (Some (foldl (\<lambda>headers line. add_header line headers) headers ls), s')
         \<and> remaining s' = rest"
  using assms
proof (induction ls arbitrary: headers s)
  case Nil
  then have "remaining s = [CR] @ LF # rest" by (simp add: CRLF_def)
  moreover have "LF \<notin> set [CR]" by (simp add: LF_def CR_def)
  ultimately obtain s' where "readLine s = (Some ([CR] @ [LF]), s')" "remaining s' = rest"
    using readLine_first by blast
  then show ?case by (simp add: readHeaders_loop.simps[of headers s] CRLF_def)
next
  case (Cons l ls)
  from Cons.prems(1) have hl: "header_line l" and rest: "list_all header_line ls" by simp_all
  from hl have l: "l = butlast l @ [LF]" and nl: "LF \<notin> set (butlast l)" and ne: "l \<noteq> CRLF"
    by (auto simp: header_line_def dest: append_butlast_last_id)
  have "remaining s = butlast l @ LF # (concat ls @ CRLF @ rest)"
    using Cons.prems(2) l by (metis append_Cons append_Nil append_assoc concat.simps(2))
  from readLine_first[OF this nl] l
  obtain s1 where s1: "readLine s = (Some l, s1)" "remaining s1 = concat ls @ CRLF @ rest"
    by auto
  from Cons.IH[OF rest s1(2), of "add_header l headers"]
  obtain s' where "readHeaders_loop (add_header l headers) s1 =
            (Some (foldl (\<lambda>headers line. add_header line headers) (add_header l headers) ls), s')"
    "remaining s' = rest" by blast
  then show ?case using s1(1) ne by (simp add: readHeaders_loop.simps[of headers s])
qed

lemma read_well_formed_frame:
  assumes "well_formed_frame ls body" and "remaining s = framed ls body @ rest"
  shows "\<exists>s'. FramedJSONRPC_read JSON_parse s =
           (case JSON_parse body of Inr req \<Rightarrow> Message req
            | Inl msg \<Rightarrow> Message (parse_error_request msg), s')
         \<and> remaining s' = rest"
proof -
  let ?n = "length body"
  let ?h = "parse_headers ls"
  from assms(1) have lines: "list_all header_line ls" and pos: "0 < ?n"
    and len: "declared_length ?h = Some (int ?n)"
    by (simp_all add: well_formed_frame_def)
  have "remaining s = concat ls @ CRLF @ body @ rest"
    using assms(2) by (simp add: framed_def)
  from readHeaders_loop_lines[OF lines this, of Map.empty]
  obtain s1 where s1: "readHeaders s = (Some ?h, s1)" "remaining s1 = body @ rest"
    by (auto simp: readHeaders_def parse_headers_def)
  from readBytes_spec[OF pos, of s1] s1(2)
  have "fst (readBytes ?n s1) = Inr body" and "remaining (snd (readBytes ?n s1)) = rest"
    by simp_all
  then obtain s2 where s2: "readBytes ?n s1 = (Inr body, s2)" "remaining s2 = rest"
    by (cases "readBytes ?n s1") auto
  have "FramedJSONRPC_read JSON_parse s =
           (case JSON_parse body of Inr req \<Rightarrow> Message req
            | Inl msg \<Rightarrow> Message (parse_error_request msg), s2)"
    using s1(1) s2(1) pos len
    by (simp add: FramedJSONRPC_read_def declared_length_def split: sum.splits)
  with s2(2) show ?thesis by blast
qed

text \<open>The frames that \<open>write\<close> produces are well formed.\<close>

lemma frame_well_formed:
  assumes "body \<noteq> []" and "int (length body) \<le> MAX_SAFE_INTEGER"
  shows "frame body = framed [''Content-Length: '' @ decimal (length body) @ CRLF] body"
    and "well_formed_frame [''Content-Length: '' @ decimal (length body) @ CRLF] body"
proof -
  let ?l = "''Content-Length: '' @ decimal (length body) @ CRLF"
  show "frame body = framed [?l] body" by (simp add: frame_def framed_def)
  have "?l = (''Content-Length: '' @ decimal (length body) @ [CR]) @ [LF]" by (simp add: CRLF_def)
  then have bl: "butlast ?l = ''Content-Length: '' @ decimal (length body) @ [CR]" and "last ?l = LF"
    by (metis butlast_snoc, metis last_snoc)
  moreover have "LF \<notin> set (butlast ?l)"
    unfolding bl using decimal_no_LF[of "length body"] by (simp add: LF_def CR_def)
  moreover have "?l \<noteq> CRLF" by (simp add: CRLF_def)
  moreover have "ascii (decimal (length body))"
    using decimal_digits[of "length body"] by (auto simp: ascii_def list_all_iff is_digit_def)
  then have "ascii ?l" by (simp add: ascii_def CRLF_def CR_def LF_def)
  ultimately have "header_line ?l" by (simp add: header_line_def)
  moreover have "parse_headers [?l] = [''content-length'' \<mapsto> decimal (length body)]"
    unfolding parse_headers_def foldl.simps by (rule add_header_content_length)
  then have "declared_length (parse_headers [?l]) = Some (int (length body))"
    using decimal_nonempty[of "length body"]
    by (simp add: declared_length_def parseInt_decimal)
  ultimately show "well_formed_frame [?l] body" using assms by (simp add: well_formed_frame_def)
qed


text \<open>Successive \<open>read\<close> calls; before each call the producer takes the given number of
  steps, so chunks may arrive and the stream may close between, before or during calls.\<close>

fun reads :: "(Buffer \<Rightarrow> Json throws) \<Rightarrow> nat list \<Rightarrow> Readable \<Rightarrow> read_result list" where
  "reads JSON_parse [] s = []"
| "reads JSON_parse (k # ks) s =
     (case FramedJSONRPC_read JSON_parse (deliver k s) of (r, s') \<Rightarrow> r # reads JSON_parse ks s')"

lemma remaining_deliver: "remaining (deliver k s) = remaining s"
proof (induction k arbitrary: s)
  case 0
  show ?case by simp
next
  case (Suc k)
  show ?case
  proof (cases "producer s")
    case (Writing cs)
    then show ?thesis
      by (cases cs) (simp_all add: Suc, simp_all add: remaining_def pending_bytes_def)
  qed simp_all
qed

lemma read_end_of_stream:
  assumes "remaining s = []"
  shows "\<exists>s'. FramedJSONRPC_read JSON_parse s = (Undefined, s') \<and> remaining s' = []"
proof -
  from assms have "LF \<notin> set (remaining s)" by simp
  then obtain s' where "readLine s = (None, s')" "remaining s' = []"
    using readLine_none by blast
  then show ?thesis
    by (simp add: FramedJSONRPC_read_def readHeaders_def readHeaders_loop.simps[of _ s])
qed

text \<open>
  C1. When the bytes still to be read are \<open>N\<close> well-formed frames, then \<open>N + 1\<close> reads return
  the \<open>N\<close> decoded messages in order and then the end-of-stream signal, however the bytes
  are split between the buffer and the chunks to come, whether the producer has ended the
  stream already or ends it later, and whatever arrives between the calls. A well-formed
  frame has ASCII header lines, among them a \<open>Content-Length\<close> whose value \<open>read\<close> parses to
  the length of the body, and a body that is not empty, decodes as JSON and is no longer
  than the largest safe integer.
\<close>

theorem reads_frames_then_end:
  assumes "remaining s = concat (map (\<lambda>(header_lines, body). framed header_lines body) frames)"
    and "list_all2 (\<lambda>(header_lines, body) msg.
            well_formed_frame header_lines body \<and> JSON_parse body = Inr msg) frames msgs"
    and "length ks = length frames + 1"
  shows "reads JSON_parse ks s = map Message msgs @ [Undefined]"
  using assms
proof (induction frames arbitrary: msgs ks s)
  case Nil
  then obtain k where ks: "ks = [k]" by (cases ks) auto
  from Nil have "remaining (deliver k s) = []" by (simp add: remaining_deliver)
  then obtain s' where "FramedJSONRPC_read JSON_parse (deliver k s) = (Undefined, s')"
    using read_end_of_stream by blast
  with Nil ks show ?case by simp
next
  case (Cons fr frames)
  obtain ls body where fr: "fr = (ls, body)" by (cases fr)
  from Cons.prems(2) fr obtain msg msgs' where msgs: "msgs = msg # msgs'"
    and wf: "well_formed_frame ls body" and p: "JSON_parse body = Inr msg"
    and rest: "list_all2 (\<lambda>(header_lines, body) msg.
            well_formed_frame header_lines body \<and> JSON_parse body = Inr msg) frames msgs'"
    by (auto simp: list_all2_Cons1)
  from Cons.prems(3) obtain k ks' where ks: "ks = k # ks'" and len: "length ks' = length frames + 1"
    by (cases ks) auto
  have "remaining (deliver k s) =
      framed ls body @ concat (map (\<lambda>(header_lines, body). framed header_lines body) frames)"
    using Cons.prems(1) fr by (simp add: remaining_deliver)
  from read_well_formed_frame[OF wf this, of JSON_parse] p
  obtain s' where s': "FramedJSONRPC_read JSON_parse (deliver k s) = (Message msg, s')"
      "remaining s' = concat (map (\<lambda>(header_lines, body). framed header_lines body) frames)"
    by auto
  from Cons.IH[OF s'(2) rest len] s'(1) msgs ks show ?case by simp
qed

theorem reads_frames_then_end_witness:
  "remaining \<lparr>buffered = ''Content-Ty'',
              producer = Writing [''pe: application/json'' @ CRLF @ ''content-length:2'' @ CRLF,
                                  CRLF @ ''{}Content-Length: 3'' @ CRLF @ CRLF @ ''['', ''1]'']\<rparr>
     = concat (map (\<lambda>(header_lines, body). framed header_lines body)
         [([''Content-Type: application/json'' @ CRLF, ''content-length:2'' @ CRLF], ''{}''),
          ([''Content-Length: 3'' @ CRLF], ''[1]'')])
   \<and> list_all2 (\<lambda>(header_lines, body) msg. well_formed_frame header_lines body \<and>
         (\<lambda>b. if b = ''{}'' then Inr (JObj []) else if b = ''[1]'' then Inr (JArr [JNum 1]) else Inl ''Unexpected token'') body = Inr msg)
       [([''Content-Type: application/json'' @ CRLF, ''content-length:2'' @ CRLF], ''{}''),
        ([''Content-Length: 3'' @ CRLF], ''[1]'')]
       [JObj [], JArr [JNum 1]]
   \<and> reads (\<lambda>b. if b = ''{}'' then Inr (JObj []) else if b = ''[1]'' then Inr (JArr [JNum 1]) else Inl ''Unexpected token'')
        [0, 7, 1]
        \<lparr>buffered = ''Content-Ty'',
         producer = Writing [''pe: application/json'' @ CRLF @ ''content-length:2'' @ CRLF,
                             CRLF @ ''{}Content-Length: 3'' @ CRLF @ CRLF @ ''['', ''1]'']\<rparr>
     = [Message (JObj []), Message (JArr [JNum 1]), Undefined]"
proof -
  let ?s = "\<lparr>buffered = ''Content-Ty'',
              producer = Writing [''pe: application/json'' @ CRLF @ ''content-length:2'' @ CRLF,
                                  CRLF @ ''{}Content-Length: 3'' @ CRLF @ CRLF @ ''['', ''1]'']\<rparr>"
  let ?P = "\<lambda>b. if b = ''{}'' then Inr (JObj []) else if b = ''[1]'' then Inr (JArr [JNum 1]) else Inl ''Unexpected token''"
  let ?frames = "[([''Content-Type: application/json'' @ CRLF, ''content-length:2'' @ CRLF], ''{}''),
          ([''Content-Length: 3'' @ CRLF], ''[1]'')]"
  have h1: "remaining ?s = concat (map (\<lambda>(header_lines, body). framed header_lines body) ?frames)"
    by (simp add: remaining_def pending_bytes_def framed_def)
  have "list_all header_line [''Content-Type: application/json'' @ CRLF, ''content-length:2'' @ CRLF]"
    and "declared_length (parse_headers [''Content-Type: application/json'' @ CRLF, ''content-length:2'' @ CRLF])
         = Some (int (length ''{}''))"
    by code_simp+
  then have w1: "well_formed_frame [''Content-Type: application/json'' @ CRLF, ''content-length:2'' @ CRLF] ''{}''"
    by (simp add: well_formed_frame_def MAX_SAFE_INTEGER_def)
  have "list_all header_line [''Content-Length: 3'' @ CRLF]"
    and "declared_length (parse_headers [''Content-Length: 3'' @ CRLF]) = Some (int (length ''[1]''))"
    by code_simp+
  then have w2: "well_formed_frame [''Content-Length: 3'' @ CRLF] ''[1]''"
    by (simp add: well_formed_frame_def MAX_SAFE_INTEGER_def)
  have h2: "list_all2 (\<lambda>(header_lines, body) msg. well_formed_frame header_lines body \<and> ?P body = Inr msg)
      ?frames [JObj [], JArr [JNum 1]]"
    using w1 w2 by simp
  have h3: "length [0, 7, 1 :: nat] = length ?frames + 1" by simp
  from reads_frames_then_end[OF h1 h2 h3]
  have r: "reads ?P [0, 7, 1] ?s = [Message (JObj []), Message (JArr [JNum 1]), Undefined]"
    by simp
  show ?thesis using h1 h2 r by (intro conjI)
qed

section \<open>Server\<close>

subsection \<open>Serialised shapes\<close>

definition ToolDef_json :: "ToolDef \<Rightarrow> Json" where
  "ToolDef_json d = object [(''name'', Some (JStr (name d))),
                            (''description'', map_option JStr (description d)),
                            (''inputSchema'', inputSchema d)]"

fun ContentPart_json :: "ContentPart \<Rightarrow> Json" where
  "ContentPart_json (TextPart t) = JObj [(''type'', JStr ''text''), (''text'', JStr t)]"

definition ToolResult_json :: "ToolResult \<Rightarrow> Json" where
  "ToolResult_json r = object [(''content'', Some (JArr (map ContentPart_json (content r)))),
                               (''isError'', map_option JBool (isError r))]"

definition ResourceDef_json :: "ResourceDef \<Rightarrow> Json" where
  "ResourceDef_json d = object [(''uri'', Some (JStr (uri d))),
                                (''name'', map_option JStr (rname d)),
                                (''description'', map_option JStr (rdescription d)),
                                (''mimeType'', map_option JStr (mimeType d))]"

definition ResourceContent_json :: "ResourceContent \<Rightarrow> Json" where
  "ResourceContent_json c = object [(''uri'', Some (JStr (curi c))),
                                    (''mimeType'', map_option JStr (cmimeType c)),
                                    (''text'', map_option JStr (ctext c))]"

definition PromptVariable_json :: "PromptVariable \<Rightarrow> Json" where
  "PromptVariable_json v = object [(''name'', Some (JStr (vname v))),
                                   (''description'', map_option JStr (vdescription v)),
                                   (''required'', map_option JBool (required v))]"

definition PromptDef_json :: "PromptDef \<Rightarrow> Json" where
  "PromptDef_json d = object [(''name'', Some (JStr (pname d))),
                              (''description'', map_option JStr (pdescription d)),
                              (''variables'', map_option (\<lambda>vs. JArr (map PromptVariable_json vs)) (pvariables d))]"

subsection \<open>MCPServer\<close>

text \<open>
  The server owns its options, the three registries and the shutdown flag. \<open>clock\<close> is the
  instant the context's \<open>now\<close> returns, and \<open>written\<close> is the sequence of objects written to
  the output stream so far.
\<close>

record MCPServer =
  serverName :: "string option"
  serverVersion :: "string option"
  tools :: ToolRegistry
  resourceRegistry :: ResourceRegistry
  prompts :: PromptRegistry
  shuttingDown :: bool
  clock :: string
  written :: "Json list"

definition send :: "Json \<Rightarrow> MCPServer \<Rightarrow> MCPServer" where
  "send resp srv = srv\<lparr>written := FramedJSONRPC_write resp (written srv)\<rparr>"

definition result_response :: "Json \<Rightarrow> Json \<Rightarrow> Json" where
  "result_response ident res = JObj [(''jsonrpc'', JStr ''2.0''), (''id'', ident), (''result'', res)]"

definition sendError :: "Json \<Rightarrow> int \<Rightarrow> string \<Rightarrow> Json option \<Rightarrow> MCPServer \<Rightarrow> MCPServer" where
  "sendError ident code message data srv =
     send (JObj [(''jsonrpc'', JStr ''2.0''), (''id'', ident),
                 (''error'', object [(''code'', Some (JNum code)), (''message'', Some (JStr message)),
                                     (''data'', if truthy data then data else None)])]) srv"

definition initialize_result :: "MCPServer \<Rightarrow> Json" where
  "initialize_result srv =
     JObj [(''protocolVersion'', JStr ''2024-11-01''),
           (''serverInfo'', JObj [(''name'', JStr (case serverName srv of None \<Rightarrow> ''eva-mcp'' | Some n \<Rightarrow> n)),
                                  (''version'', JStr (case serverVersion srv of None \<Rightarrow> ''0.1.0'' | Some v \<Rightarrow> v))]),
           (''capabilities'',
              JObj [(''tools'', JObj [(''list'', JBool True), (''call'', JBool True)]),
                    (''resources'', JObj [(''list'', JBool True), (''read'', JBool True),
                                          (''supportedSchemes'', JArr [JStr ''file''])]),
                    (''prompts'', JObj [(''list'', JBool True), (''get'', JBool True)])])]"

text \<open>The \<open>switch\<close> of \<open>handle\<close>: the left injection is the message of an error thrown inside
  the \<open>try\<close> block, which happens before anything is sent.\<close>

definition dispatch :: "MCPServer \<Rightarrow> Json \<Rightarrow> Json \<Rightarrow> MCPServer throws" where
  "dispatch srv ident req =
     (let method = get_prop req ''method'';
          params = nullish_or (get_prop req ''params'') (JObj [])
      in if method = Some (JStr ''initialize'') then
           Inr (send (result_response ident (initialize_result srv)) srv)
         else if method = Some (JStr ''shutdown'') then
           Inr (send (result_response ident JNull) (srv\<lparr>shuttingDown := True\<rparr>))
         else if method = Some (JStr ''tools/list'') then
           Inr (send (result_response ident
                  (JObj [(''tools'', JArr (map ToolDef_json (ToolRegistry_list (tools srv))))])) srv)
         else if method = Some (JStr ''tools/call'') then
           (case ToolRegistry_call (tools srv) (clock srv)
                   (String_opt (get_prop params ''name'')) (get_prop params ''arguments'') of
              Inl e \<Rightarrow> Inl e
            | Inr toolRes \<Rightarrow> Inr (send (result_response ident (ToolResult_json toolRes)) srv))
         else if method = Some (JStr ''resources/list'') then
           Inr (send (result_response ident
                  (JObj [(''resources'', JArr (map ResourceDef_json (ResourceRegistry_list (resourceRegistry srv))))])) srv)
         else if method = Some (JStr ''resources/read'') then
           (if \<not> truthy (get_prop params ''uri'') then Inl ''uri required''
            else case ResourceRegistry_read (resourceRegistry srv) (String_opt (get_prop params ''uri'')) of
                   Inl e \<Rightarrow> Inl e
                 | Inr res \<Rightarrow> Inr (send (result_response ident (ResourceContent_json res)) srv))
         else if method = Some (JStr ''prompts/list'') then
           Inr (send (result_response ident
                  (JObj [(''prompts'', JArr (map PromptDef_json (PromptRegistry_list (prompts srv))))])) srv)
         else if method = Some (JStr ''prompts/get'') then
           (if \<not> truthy (get_prop params ''name'') then Inl ''name required''
            else case PromptRegistry_get (prompts srv) (String_opt (get_prop params ''name''))
                        (Some (nullish_or (get_prop params ''variables'') (JObj []))) of
                   Inl e \<Rightarrow> Inl e
                 | Inr (nm, rendered) \<Rightarrow>
                     Inr (send (result_response ident
                            (JObj [(''prompt'', JObj [(''name'', JStr nm),
                                     (''messages'', JArr [JObj [(''role'', JStr ''system''),
                                                                (''content'', JStr rendered)]])])])) srv))
         else Inr (sendError ident (- 32601) ''Method not found''
                     (Some (object [(''method'', method)])) srv))"

definition handle :: "MCPServer \<Rightarrow> Json \<Rightarrow> MCPServer" where
  "handle srv req =
     (let ident = nullish_or (get_prop req ''id'') JNull in
      case dispatch srv ident req of
        Inr srv' \<Rightarrow> srv'
      | Inl e \<Rightarrow> sendError ident (- 32000) (if e = [] then ''Server error'' else e) None srv)"

text \<open>\<open>run\<close> resolves, rejects with what \<open>read\<close> threw, or never settles.\<close>

datatype run_result = Returned | Threw string | NeverSettles

lemma readHeaders_loop_consumes:
  "readHeaders_loop headers s = (Some headers', s') \<Longrightarrow> length (remaining s') < length (remaining s)"
proof (induction headers s arbitrary: headers' s' rule: readHeaders_loop.induct)
  case (1 headers s)
  obtain l s1 where rl: "readLine s = (l, s1)" by (cases "readLine s")
  show ?case
  proof (cases l)
    case None
    with "1.prems" rl show ?thesis by (simp add: readHeaders_loop.simps[of headers s])
  next
    case (Some line)
    with rl have c: "length (remaining s1) < length (remaining s)"
      by (auto intro: readLine_consumes)
    show ?thesis
    proof (cases "line = CRLF")
      case True
      with "1.prems" rl Some c show ?thesis by (simp add: readHeaders_loop.simps[of headers s])
    next
      case False
      with "1.prems" rl Some have "readHeaders_loop (add_header line headers) s1 = (Some headers', s')"
        by (simp add: readHeaders_loop.simps[of headers s])
      from "1.IH"[OF rl[symmetric] _ False this] Some c show ?thesis by simp
    qed
  qed
qed

lemma read_message_consumes:
  assumes "FramedJSONRPC_read JSON_parse s = (Message msg, s')"
  shows "length (remaining s') < length (remaining s)"
proof -
  obtain h s1 where rh: "readHeaders s = (h, s1)" by (cases "readHeaders s")
  with assms obtain headers where h: "h = Some headers"
    by (cases h) (auto simp: FramedJSONRPC_read_def)
  with rh have c1: "length (remaining s1) < length (remaining s)"
    by (auto simp: readHeaders_def dest: readHeaders_loop_consumes)
  define len where "len = (case headers ''content-length'' of None \<Rightarrow> None
                           | Some str \<Rightarrow> if str = [] then None else parseInt str)"
  have eq: "FramedJSONRPC_read JSON_parse s =
      (if len = None \<or> the len \<le> 0
       then (case drainBody s1 of None \<Rightarrow> (Unsettled, s1) | Some s2 \<Rightarrow> (Undefined, s2))
       else (case readBytes (nat (the len)) s1 of
               (Inl e, s2) \<Rightarrow> (Rejected e, s2)
             | (Inr buf, s2) \<Rightarrow>
                 (case JSON_parse buf of
                    Inr req \<Rightarrow> (Message req, s2)
                  | Inl msg \<Rightarrow> (Message (parse_error_request msg), s2))))"
    using rh h by (simp add: FramedJSONRPC_read_def len_def Let_def)
  have valid: "\<not> (len = None \<or> the len \<le> 0)"
  proof
    assume "len = None \<or> the len \<le> 0"
    with eq assms show False by (cases "drainBody s1") auto
  qed
  then have pos: "0 < nat (the len)" by auto
  obtain r s2 where rb: "readBytes (nat (the len)) s1 = (r, s2)"
    by (cases "readBytes (nat (the len)) s1")
  from readBytes_spec[OF pos, of s1] rb have "remaining s2 = drop (nat (the len)) (remaining s1)"
    by simp
  then have c2: "length (remaining s2) \<le> length (remaining s1)" by simp
  from assms eq valid rb have "s' = s2"
    by (auto split: sum.splits)
  with c1 c2 show ?thesis by simp
qed

function run :: "(Buffer \<Rightarrow> Json throws) \<Rightarrow> MCPServer \<Rightarrow> Readable \<Rightarrow> run_result \<times> MCPServer \<times> Readable" where
  "run JSON_parse srv s =
     (case FramedJSONRPC_read JSON_parse s of
        (Rejected e, s') \<Rightarrow> (Threw e, srv, s')
      | (Unsettled, s') \<Rightarrow> (NeverSettles, srv, s')
      | (Undefined, s') \<Rightarrow> (Returned, srv, s')
      | (Message msg, s') \<Rightarrow>
          if \<not> truthy (Some msg) then (Returned, srv, s')
          else if get_prop msg ''method'' = Some (JStr ''__internal_parse_error__'') then
            run JSON_parse (sendError JNull (- 32700) ''Parse error'' (get_prop msg ''params'') srv) s'
          else (let srv' = handle srv msg in
                if shuttingDown srv' then (Returned, srv', s')
                else run JSON_parse srv' s'))"
  by pat_completeness auto
termination
  by (relation "measure (\<lambda>(JSON_parse, srv, s). length (remaining s))")
    (auto intro: read_message_consumes[OF sym])

declare run.simps [simp del]


subsection \<open>One request, one response\<close>

lemma get_prop_id_response [simp]:
  "get_prop (result_response ident res) ''id'' = Some ident"
  by (simp add: result_response_def)

lemma send_written [simp]: "written (send resp srv) = written srv @ [resp]"
  by (simp add: send_def FramedJSONRPC_write_def)

lemma send_shuttingDown [simp]: "shuttingDown (send resp srv) = shuttingDown srv"
  by (simp add: send_def)

lemma sendError_written:
  "\<exists>resp err. written (sendError ident code message data srv) = written srv @ [resp]
     \<and> get_prop resp ''id'' = Some ident \<and> get_prop resp ''result'' = None
     \<and> get_prop resp ''error'' = Some err
     \<and> get_prop err ''code'' = Some (JNum code) \<and> get_prop err ''message'' = Some (JStr message)"
  by (simp add: sendError_def object_def List.map_filter_simps)

lemma sendError_shuttingDown [simp]:
  "shuttingDown (sendError ident code message data srv) = shuttingDown srv"
  by (simp add: sendError_def)

lemma dispatch_written:
  "dispatch srv ident req = Inr srv' \<Longrightarrow>
     \<exists>resp. written srv' = written srv @ [resp] \<and> get_prop resp ''id'' = Some ident"
  using sendError_written[of ident "- 32601" "''Method not found''" _ srv]
  by (auto simp: dispatch_def Let_def split: if_splits sum.splits prod.splits)

text \<open>Every call of \<open>handle\<close> writes exactly one response, and it carries \<open>req.id ?? null\<close>.\<close>

lemma handle_written:
  "\<exists>resp. written (handle srv req) = written srv @ [resp]
     \<and> get_prop resp ''id'' = Some (nullish_or (get_prop req ''id'') JNull)"
proof (cases "dispatch srv (nullish_or (get_prop req ''id'') JNull) req")
  case (Inl e)
  with sendError_written[of "nullish_or (get_prop req ''id'') JNull" "- 32000" _ None srv]
  show ?thesis by (fastforce simp: handle_def Let_def)
next
  case (Inr srv')
  with dispatch_written[OF Inr] show ?thesis by (simp add: handle_def Let_def)
qed




subsection \<open>The loop, one frame at a time\<close>

lemma run_end_of_stream:
  assumes "remaining s = []"
  shows "\<exists>s'. run JSON_parse srv s = (Returned, srv, s')"
proof -
  from read_end_of_stream[OF assms, of JSON_parse]
  obtain s' where "FramedJSONRPC_read JSON_parse s = (Undefined, s')" by blast
  then show ?thesis by (simp add: run.simps[of JSON_parse srv s])
qed

lemma run_frame:
  assumes "remaining s = frame body @ rest" and "body \<noteq> []" and "JSON_parse body = Inr msg"
  shows "\<exists>s'. remaining s' = rest \<and>
     run JSON_parse srv s =
       (if \<not> truthy (Some msg) then (Returned, srv, s')
        else if get_prop msg ''method'' = Some (JStr ''__internal_parse_error__'') then
          run JSON_parse (sendError JNull (- 32700) ''Parse error'' (get_prop msg ''params'') srv) s'
        else if shuttingDown (handle srv msg) then (Returned, handle srv msg, s')
        else run JSON_parse (handle srv msg) s')"
proof -
  from read_frame[OF assms(1,2), of JSON_parse] assms(3)
  obtain s' where "FramedJSONRPC_read JSON_parse s = (Message msg, s')" "remaining s' = rest"
    by auto
  then show ?thesis by (auto simp: run.simps[of JSON_parse srv s] Let_def)
qed

lemma run_undecodable_frame:
  assumes "remaining s = frame body @ rest" and "body \<noteq> []" and "JSON_parse body = Inl e"
  shows "\<exists>s'. remaining s' = rest \<and>
     run JSON_parse srv s =
       run JSON_parse (sendError JNull (- 32700) ''Parse error''
          (Some (JObj [(''message'', JStr (if e = [] then ''Parse error'' else e))])) srv) s'"
proof -
  from read_frame[OF assms(1,2), of JSON_parse] assms(3)
  obtain s' where "FramedJSONRPC_read JSON_parse s = (Message (parse_error_request e), s')"
    "remaining s' = rest"
    by auto
  then show ?thesis
    by (auto simp: run.simps[of JSON_parse srv s] parse_error_request_def)
qed

definition request :: "Json \<Rightarrow> string \<Rightarrow> Json" where
  "request ident method = JObj [(''jsonrpc'', JStr ''2.0''), (''id'', ident), (''method'', JStr method)]"



text \<open>The decoder of the examples: it decodes the four JSON texts the examples send, as
  \<open>JSON.parse\<close> does, and rejects every other text.\<close>

definition example_parse :: "Buffer \<Rightarrow> Json throws" where
  "example_parse text =
     (if text = ''{\"jsonrpc\":\"2.0\",\"id\":1,\"method\":\"initialize\"}''
        then Inr (request (JNum 1) ''initialize'')
      else if text = ''{\"jsonrpc\":\"2.0\",\"id\":2,\"method\":\"shutdown\"}''
        then Inr (request (JNum 2) ''shutdown'')
      else if text = ''{\"jsonrpc\":\"2.0\",\"id\":3,\"method\":\"tools/list\"}''
        then Inr (request (JNum 3) ''tools/list'')
      else if text = ''{\"jsonrpc\":\"2.0\",\"id\":5,\"method\":\"__internal_parse_error__\"}''
        then Inr (request (JNum 5) ''__internal_parse_error__'')
      else Inl ''Unexpected token'')"

definition example_server :: MCPServer where
  "example_server =
     \<lparr>serverName = None, serverVersion = None, tools = [], resourceRegistry = ResourceRegistry_new,
      prompts = [], shuttingDown = False, clock = ''2025-12-07T19:15:46.000Z'', written = []\<rparr>"


section \<open>Properties of the dispatcher\<close>




text \<open>The name a \<open>tools/call\<close> request gives: the property \<open>name\<close> of its parameters, where
  missing parameters count as \<open>{}\<close>.\<close>

definition requested_tool :: "Json \<Rightarrow> Json option" where
  "requested_tool req = get_prop (nullish_or (get_prop req ''params'') (JObj [])) ''name''"

text \<open>
  C6. A \<open>tools/call\<close> request whose tool name, a string, is not registered is answered with a
  result, not an error: the response has the request's identifier and no \<open>error\<close> member, and
  its result has \<open>isError\<close> true and one text part, \<open>Tool not found: \<close> followed by the
  requested name.
\<close>

theorem unknown_tool_is_error_result:
  assumes "get_prop req ''method'' = Some (JStr ''tools/call'')"
    and "requested_tool req = Some (JStr nm)"
    and "Map_get (tools srv) nm = None"
  shows "written (handle srv req) = written srv @
     [JObj [(''jsonrpc'', JStr ''2.0''),
            (''id'', nullish_or (get_prop req ''id'') JNull),
            (''result'', JObj [(''content'', JArr [JObj [(''type'', JStr ''text''),
                                  (''text'', JStr (''Tool not found: '' @ nm))]]),
                               (''isError'', JBool True)])]]"
  using assms
  by (simp add: handle_def dispatch_def Let_def requested_tool_def ToolRegistry_call_def
      ToolResult_json_def object_def List.map_filter_simps result_response_def)

theorem unknown_tool_is_error_result_witness:
  "get_prop (JObj [(''jsonrpc'', JStr ''2.0''), (''id'', JNum 1), (''method'', JStr ''tools/call''),
                   (''params'', JObj [(''name'', JStr ''nope''), (''arguments'', JObj [])])]) ''method''
     = Some (JStr ''tools/call'')
   \<and> requested_tool (JObj [(''jsonrpc'', JStr ''2.0''), (''id'', JNum 1), (''method'', JStr ''tools/call''),
                   (''params'', JObj [(''name'', JStr ''nope''), (''arguments'', JObj [])])]) = Some (JStr ''nope'')
   \<and> Map_get (tools (example_server\<lparr>tools :=
          ToolRegistry_register \<lparr>name = ''echo'', description = Some ''Echo text'', inputSchema = None\<rparr>
            (\<lambda>args now. Inr \<lparr>content = [TextPart (String_js (nullish_or (case args of None \<Rightarrow> None | Some a \<Rightarrow> get_prop a ''text'') (JStr [])))], isError = None\<rparr>)
            []\<rparr>)) ''nope'' = None
   \<and> written (handle (example_server\<lparr>tools :=
          ToolRegistry_register \<lparr>name = ''echo'', description = Some ''Echo text'', inputSchema = None\<rparr>
            (\<lambda>args now. Inr \<lparr>content = [TextPart (String_js (nullish_or (case args of None \<Rightarrow> None | Some a \<Rightarrow> get_prop a ''text'') (JStr [])))], isError = None\<rparr>)
            []\<rparr>)
        (JObj [(''jsonrpc'', JStr ''2.0''), (''id'', JNum 1), (''method'', JStr ''tools/call''),
               (''params'', JObj [(''name'', JStr ''nope''), (''arguments'', JObj [])])]))
     = [JObj [(''jsonrpc'', JStr ''2.0''), (''id'', JNum 1),
              (''result'', JObj [(''content'', JArr [JObj [(''type'', JStr ''text''),
                                    (''text'', JStr ''Tool not found: nope'')]]),
                                 (''isError'', JBool True)])]]"
proof -
  let ?req = "JObj [(''jsonrpc'', JStr ''2.0''), (''id'', JNum 1), (''method'', JStr ''tools/call''),
                   (''params'', JObj [(''name'', JStr ''nope''), (''arguments'', JObj [])])]"
  let ?srv = "example_server\<lparr>tools :=
          ToolRegistry_register \<lparr>name = ''echo'', description = Some ''Echo text'', inputSchema = None\<rparr>
            (\<lambda>args now. Inr \<lparr>content = [TextPart (String_js (nullish_or (case args of None \<Rightarrow> None | Some a \<Rightarrow> get_prop a ''text'') (JStr [])))], isError = None\<rparr>)
            []\<rparr>"
  have h1: "get_prop ?req ''method'' = Some (JStr ''tools/call'')" by simp
  have h2: "requested_tool ?req = Some (JStr ''nope'')" by (simp add: requested_tool_def)
  have h3: "Map_get (tools ?srv) ''nope'' = None"
    by (simp add: ToolRegistry_register_def Map_get_def)
  have w: "written ?srv = []" by (simp add: example_server_def)
  from unknown_tool_is_error_result[OF h1 h2 h3] h1 h2 h3 w show ?thesis by simp
qed

lemma run_written_prefix:
  "prefix (written srv) (written (fst (snd (run JSON_parse srv s))))"
proof (induction JSON_parse srv s rule: run.induct)
  case (1 JSON_parse srv s)
  obtain r s' where rd: "FramedJSONRPC_read JSON_parse s = (r, s')"
    by (cases "FramedJSONRPC_read JSON_parse s")
  show ?case
  proof (cases r)
    case (Message msg)
    show ?thesis
    proof (cases "truthy (Some msg)")
      case False
      with rd Message show ?thesis by (simp add: run.simps[of JSON_parse srv s])
    next
      case True
      show ?thesis
      proof (cases "get_prop msg ''method'' = Some (JStr ''__internal_parse_error__'')")
        case sentinel: True
        let ?srv1 = "sendError JNull (- 32700) ''Parse error'' (get_prop msg ''params'') srv"
        have nn: "\<not> \<not> truthy (Some msg)" using True by simp
        have a: "prefix (written ?srv1) (written (fst (snd (run JSON_parse ?srv1 s'))))"
          by (rule "1.IH"(1)[OF rd[symmetric] Message nn sentinel])
        obtain resp where "written ?srv1 = written srv @ [resp]"
          using sendError_written[of JNull "- 32700" "''Parse error''" "get_prop msg ''params''" srv]
          by blast
        then have b: "prefix (written srv) (written ?srv1)" by simp
        have c: "run JSON_parse srv s = run JSON_parse ?srv1 s'"
          using rd Message True sentinel by (simp add: run.simps[of JSON_parse srv s])
        show ?thesis unfolding c by (rule prefix_order.trans[OF b a])
      next
        case other: False
        let ?srv1 = "handle srv msg"
        obtain resp where "written ?srv1 = written srv @ [resp]"
          using handle_written[of srv msg] by blast
        then have p1: "prefix (written srv) (written ?srv1)" by simp
        show ?thesis
        proof (cases "shuttingDown ?srv1")
          case True
          have "run JSON_parse srv s = (Returned, ?srv1, s')"
            using rd Message \<open>truthy (Some msg)\<close> other True
            by (simp add: run.simps[of JSON_parse srv s] Let_def)
          then show ?thesis using p1 by simp
        next
          case False
          have nn: "\<not> \<not> truthy (Some msg)" using \<open>truthy (Some msg)\<close> by simp
          have a: "prefix (written ?srv1) (written (fst (snd (run JSON_parse ?srv1 s'))))"
            by (rule "1.IH"(2)[OF rd[symmetric] Message nn other refl False])
          have c: "run JSON_parse srv s = run JSON_parse ?srv1 s'"
            using rd Message \<open>truthy (Some msg)\<close> other False
            by (simp add: run.simps[of JSON_parse srv s] Let_def)
          show ?thesis unfolding c by (rule prefix_order.trans[OF p1 a])
        qed
      qed
    qed
  next
    case Undefined
    with rd show ?thesis by (simp add: run.simps[of JSON_parse srv s])
  next
    case (Rejected e)
    with rd show ?thesis by (simp add: run.simps[of JSON_parse srv s])
  next
    case Unsettled
    with rd show ?thesis by (simp add: run.simps[of JSON_parse srv s])
  qed
qed

definition written_by_run :: "(Buffer \<Rightarrow> Json throws) \<Rightarrow> MCPServer \<Rightarrow> Readable \<Rightarrow> Json list" where
  "written_by_run JSON_parse srv s =
     drop (length (written srv)) (written (fst (snd (run JSON_parse srv s))))"

lemma written_by_run:
  "written (fst (snd (run JSON_parse srv s))) = written srv @ written_by_run JSON_parse srv s"
  using run_written_prefix[of srv JSON_parse s]
  by (auto simp: written_by_run_def prefix_def)

text \<open>
  C8, as the code has it. The first thing \<open>run\<close> writes for a frame is the response to that
  frame. When the frame decodes to a message whose method is not the name reserved for parse
  failures, the response carries \<open>req.id ?? null\<close>, hence the identifier of the request when it
  has one. When the body does not decode, and also when a decoded message itself names the
  reserved method, the response carries the identifier \<open>null\<close>, code -32700 and the message
  \<open>Parse error\<close>.
\<close>

theorem response_carries_request_id:
  assumes "remaining s = frame body @ rest" and "body \<noteq> []"
  shows "(\<forall>req. JSON_parse body = Inr req \<and> truthy (Some req)
             \<and> get_prop req ''method'' \<noteq> Some (JStr ''__internal_parse_error__'')
           \<longrightarrow> (\<exists>resp more. written_by_run JSON_parse srv s = resp # more
                  \<and> get_prop resp ''id'' = Some (nullish_or (get_prop req ''id'') JNull)
                  \<and> (\<forall>ident. get_prop req ''id'' = Some ident \<longrightarrow> get_prop resp ''id'' = Some ident)))
       \<and> ((\<exists>e. JSON_parse body = Inl e)
            \<or> (\<exists>req. JSON_parse body = Inr req \<and> truthy (Some req)
                  \<and> get_prop req ''method'' = Some (JStr ''__internal_parse_error__''))
           \<longrightarrow> (\<exists>resp err more. written_by_run JSON_parse srv s = resp # more
                  \<and> get_prop resp ''id'' = Some JNull
                  \<and> get_prop resp ''error'' = Some err
                  \<and> get_prop err ''code'' = Some (JNum (- 32700))
                  \<and> get_prop err ''message'' = Some (JStr ''Parse error'')))"
proof -
  have first: "\<exists>more. written_by_run JSON_parse srv s = resp # more"
    if "written srv1 = written srv @ [resp]"
      and "written (fst (snd (run JSON_parse srv s))) = written (fst (snd (run JSON_parse srv1 t)))
           \<or> written (fst (snd (run JSON_parse srv s))) = written srv1"
    for srv1 resp t
  proof -
    from that(2) run_written_prefix[of srv1 JSON_parse t]
    have "prefix (written srv1) (written (fst (snd (run JSON_parse srv s))))" by auto
    then obtain zs where "written (fst (snd (run JSON_parse srv s))) = written srv1 @ zs"
      by (auto simp: prefix_def)
    then have "written (fst (snd (run JSON_parse srv s))) = written srv @ resp # zs"
      using that(1) by simp
    then show ?thesis by (simp add: written_by_run_def)
  qed
  have sentinel_like: "\<exists>resp err more. written_by_run JSON_parse srv s = resp # more
                  \<and> get_prop resp ''id'' = Some JNull
                  \<and> get_prop resp ''error'' = Some err
                  \<and> get_prop err ''code'' = Some (JNum (- 32700))
                  \<and> get_prop err ''message'' = Some (JStr ''Parse error'')"
    if "run JSON_parse srv s = run JSON_parse (sendError JNull (- 32700) ''Parse error'' data srv) t"
    for data t
  proof -
    from sendError_written[of JNull "- 32700" "''Parse error''" data srv]
    obtain resp err where r: "written (sendError JNull (- 32700) ''Parse error'' data srv) = written srv @ [resp]"
      "get_prop resp ''id'' = Some JNull" "get_prop resp ''error'' = Some err"
      "get_prop err ''code'' = Some (JNum (- 32700))" "get_prop err ''message'' = Some (JStr ''Parse error'')"
      by blast
    from first[OF r(1), of t] that obtain more where "written_by_run JSON_parse srv s = resp # more"
      by auto
    with r show ?thesis by blast
  qed
  have part1: "\<exists>resp more. written_by_run JSON_parse srv s = resp # more
                  \<and> get_prop resp ''id'' = Some (nullish_or (get_prop req ''id'') JNull)
                  \<and> (\<forall>ident. get_prop req ''id'' = Some ident \<longrightarrow> get_prop resp ''id'' = Some ident)"
    if p: "JSON_parse body = Inr req" and t: "truthy (Some req)"
      and m: "get_prop req ''method'' \<noteq> Some (JStr ''__internal_parse_error__'')" for req
  proof -
    from run_frame[where JSON_parse=JSON_parse and srv=srv, OF assms p] t m
    obtain s' where "run JSON_parse srv s =
        (if shuttingDown (handle srv req) then (Returned, handle srv req, s')
         else run JSON_parse (handle srv req) s')" by auto
    then have alt: "written (fst (snd (run JSON_parse srv s))) = written (fst (snd (run JSON_parse (handle srv req) s')))
           \<or> written (fst (snd (run JSON_parse srv s))) = written (handle srv req)"
      by (cases "shuttingDown (handle srv req)") simp_all
    from handle_written[of srv req] obtain resp where r: "written (handle srv req) = written srv @ [resp]"
      "get_prop resp ''id'' = Some (nullish_or (get_prop req ''id'') JNull)" by blast
    from first[OF r(1) alt] obtain more where "written_by_run JSON_parse srv s = resp # more" by blast
    moreover have "get_prop resp ''id'' = Some ident" if "get_prop req ''id'' = Some ident" for ident
      using that r(2) by (cases ident) simp_all
    ultimately show ?thesis using r(2) by blast
  qed
  have part2a: "\<exists>resp err more. written_by_run JSON_parse srv s = resp # more
                  \<and> get_prop resp ''id'' = Some JNull
                  \<and> get_prop resp ''error'' = Some err
                  \<and> get_prop err ''code'' = Some (JNum (- 32700))
                  \<and> get_prop err ''message'' = Some (JStr ''Parse error'')"
    if "JSON_parse body = Inl e" for e
  proof -
    from run_undecodable_frame[where JSON_parse=JSON_parse and srv=srv, OF assms that]
    obtain s' where "run JSON_parse srv s =
       run JSON_parse (sendError JNull (- 32700) ''Parse error''
          (Some (JObj [(''message'', JStr (if e = [] then ''Parse error'' else e))])) srv) s'"
      by blast
    then show ?thesis by (rule sentinel_like)
  qed
  have part2b: "\<exists>resp err more. written_by_run JSON_parse srv s = resp # more
                  \<and> get_prop resp ''id'' = Some JNull
                  \<and> get_prop resp ''error'' = Some err
                  \<and> get_prop err ''code'' = Some (JNum (- 32700))
                  \<and> get_prop err ''message'' = Some (JStr ''Parse error'')"
    if p: "JSON_parse body = Inr req" and t: "truthy (Some req)"
      and m: "get_prop req ''method'' = Some (JStr ''__internal_parse_error__'')" for req
  proof -
    from run_frame[where JSON_parse=JSON_parse and srv=srv, OF assms p] t m
    obtain s' where "run JSON_parse srv s =
        run JSON_parse (sendError JNull (- 32700) ''Parse error'' (get_prop req ''params'') srv) s'"
      by auto
    then show ?thesis by (rule sentinel_like)
  qed
  show ?thesis
  proof (intro conjI allI impI)
    fix req
    assume "JSON_parse body = Inr req \<and> truthy (Some req)
             \<and> get_prop req ''method'' \<noteq> Some (JStr ''__internal_parse_error__'')"
    then show "\<exists>resp more. written_by_run JSON_parse srv s = resp # more
                  \<and> get_prop resp ''id'' = Some (nullish_or (get_prop req ''id'') JNull)
                  \<and> (\<forall>ident. get_prop req ''id'' = Some ident \<longrightarrow> get_prop resp ''id'' = Some ident)"
      using part1[of req] by simp
  next
    assume "(\<exists>e. JSON_parse body = Inl e)
            \<or> (\<exists>req. JSON_parse body = Inr req \<and> truthy (Some req)
                  \<and> get_prop req ''method'' = Some (JStr ''__internal_parse_error__''))"
    then show "\<exists>resp err more. written_by_run JSON_parse srv s = resp # more
                  \<and> get_prop resp ''id'' = Some JNull
                  \<and> get_prop resp ''error'' = Some err
                  \<and> get_prop err ''code'' = Some (JNum (- 32700))
                  \<and> get_prop err ''message'' = Some (JStr ''Parse error'')"
    proof (elim disjE exE conjE)
      fix e assume "JSON_parse body = Inl e"
      then show ?thesis by (rule part2a)
    next
      fix req assume "JSON_parse body = Inr req" "truthy (Some req)"
        "get_prop req ''method'' = Some (JStr ''__internal_parse_error__'')"
      then show ?thesis by (rule part2b)
    qed
  qed
qed


theorem response_carries_request_id_witness:
  "remaining \<lparr>buffered = frame ''{\"jsonrpc\":\"2.0\",\"id\":1,\"method\":\"initialize\"}'', producer = Writing [frame ''{oops'']\<rparr>
     = frame ''{\"jsonrpc\":\"2.0\",\"id\":1,\"method\":\"initialize\"}'' @ frame ''{oops''
   \<and> example_parse ''{\"jsonrpc\":\"2.0\",\"id\":1,\"method\":\"initialize\"}'' = Inr (request (JNum 1) ''initialize'')
   \<and> truthy (Some (request (JNum 1) ''initialize''))
   \<and> get_prop (request (JNum 1) ''initialize'') ''method'' \<noteq> Some (JStr ''__internal_parse_error__'')
   \<and> get_prop (request (JNum 1) ''initialize'') ''id'' = Some (JNum 1)
   \<and> (\<exists>resp more. written_by_run example_parse example_server
          \<lparr>buffered = frame ''{\"jsonrpc\":\"2.0\",\"id\":1,\"method\":\"initialize\"}'', producer = Writing [frame ''{oops'']\<rparr>
            = resp # more
         \<and> get_prop resp ''id'' = Some (JNum 1))
   \<and> remaining \<lparr>buffered = [], producer = Writing [frame ''{oops'']\<rparr> = frame ''{oops'' @ []
   \<and> example_parse ''{oops'' = Inl ''Unexpected token''
   \<and> (\<exists>resp err more. written_by_run example_parse example_server
          \<lparr>buffered = [], producer = Writing [frame ''{oops'']\<rparr> = resp # more
         \<and> get_prop resp ''id'' = Some JNull
         \<and> get_prop resp ''error'' = Some err
         \<and> get_prop err ''code'' = Some (JNum (- 32700))
         \<and> get_prop err ''message'' = Some (JStr ''Parse error''))"
proof -
  let ?b1 = "''{\"jsonrpc\":\"2.0\",\"id\":1,\"method\":\"initialize\"}''"
  let ?s = "\<lparr>buffered = frame ?b1, producer = Writing [frame ''{oops'']\<rparr>"
  let ?t = "\<lparr>buffered = [], producer = Writing [frame ''{oops'']\<rparr>"
  have rs: "remaining ?s = frame ?b1 @ frame ''{oops''"
    and rt: "remaining ?t = frame ''{oops'' @ []"
    by (simp_all add: remaining_def pending_bytes_def)
  have ne: "?b1 \<noteq> []" "''{oops'' \<noteq> []" by simp_all
  have p1: "example_parse ?b1 = Inr (request (JNum 1) ''initialize'')"
    and p2: "example_parse ''{oops'' = Inl ''Unexpected token''"
    by (simp_all add: example_parse_def)
  have q: "truthy (Some (request (JNum 1) ''initialize''))"
    "get_prop (request (JNum 1) ''initialize'') ''method'' \<noteq> Some (JStr ''__internal_parse_error__'')"
    "get_prop (request (JNum 1) ''initialize'') ''id'' = Some (JNum 1)"
    by (simp_all add: request_def)
  note T1 = response_carries_request_id[where JSON_parse=example_parse and srv=example_server, OF rs ne(1)]
  note T2 = response_carries_request_id[where JSON_parse=example_parse and srv=example_server, OF rt ne(2)]
  from T1 p1 q have a: "\<exists>resp more. written_by_run example_parse example_server ?s = resp # more
         \<and> get_prop resp ''id'' = Some (JNum 1)"
    by fastforce
  from T2 p2 have b: "\<exists>resp err more. written_by_run example_parse example_server ?t = resp # more
         \<and> get_prop resp ''id'' = Some JNull
         \<and> get_prop resp ''error'' = Some err
         \<and> get_prop err ''code'' = Some (JNum (- 32700))
         \<and> get_prop err ''message'' = Some (JStr ''Parse error'')"
    by blast
  show ?thesis using rs rt p1 p2 q a b by (intro conjI)
qed

text \<open>C8, as the specification states it, fails: the request
  \<open>{"jsonrpc":"2.0","id":5,"method":"__internal_parse_error__"}\<close> carries the identifier 5 and
  the one response written for it carries \<open>null\<close>.\<close>

theorem reserved_method_loses_request_id:
  "example_parse ''{\"jsonrpc\":\"2.0\",\"id\":5,\"method\":\"__internal_parse_error__\"}''
     = Inr (request (JNum 5) ''__internal_parse_error__'')
   \<and> get_prop (request (JNum 5) ''__internal_parse_error__'') ''id'' = Some (JNum 5)
   \<and> written (fst (snd (run example_parse example_server
            \<lparr>buffered = frame ''{\"jsonrpc\":\"2.0\",\"id\":5,\"method\":\"__internal_parse_error__\"}'',
             producer = Ended\<rparr>)))
       = [JObj [(''jsonrpc'', JStr ''2.0''), (''id'', JNull),
                (''error'', JObj [(''code'', JNum (- 32700)), (''message'', JStr ''Parse error'')])]]"
proof -
  let ?b5 = "''{\"jsonrpc\":\"2.0\",\"id\":5,\"method\":\"__internal_parse_error__\"}''"
  let ?r5 = "request (JNum 5) ''__internal_parse_error__''"
  let ?s = "\<lparr>buffered = frame ?b5, producer = Ended\<rparr>"
  let ?srv1 = "sendError JNull (- 32700) ''Parse error'' (get_prop ?r5 ''params'') example_server"
  have rs: "remaining ?s = frame ?b5 @ []" by (simp add: remaining_def pending_bytes_def)
  have ne: "?b5 \<noteq> []" by simp
  have p: "example_parse ?b5 = Inr ?r5" by (simp add: example_parse_def)
  have q: "truthy (Some ?r5)" "get_prop ?r5 ''method'' = Some (JStr ''__internal_parse_error__'')"
    "get_prop ?r5 ''id'' = Some (JNum 5)"
    by (simp_all add: request_def)
  from run_frame[where JSON_parse=example_parse and srv=example_server, OF rs ne p] q
  obtain s' where s': "remaining s' = []"
    "run example_parse example_server ?s = run example_parse ?srv1 s'"
    by auto
  from run_end_of_stream[OF s'(1), of example_parse ?srv1]
  obtain s'' where "run example_parse ?srv1 s' = (Returned, ?srv1, s'')" by blast
  with s'(2) have "written (fst (snd (run example_parse example_server ?s))) = written ?srv1" by simp
  moreover have "written ?srv1 =
      [JObj [(''jsonrpc'', JStr ''2.0''), (''id'', JNull),
             (''error'', JObj [(''code'', JNum (- 32700)), (''message'', JStr ''Parse error'')])]]"
    by (simp add: sendError_def request_def example_server_def object_def List.map_filter_simps)
  ultimately have "written (fst (snd (run example_parse example_server ?s))) =
      [JObj [(''jsonrpc'', JStr ''2.0''), (''id'', JNull),
             (''error'', JObj [(''code'', JNum (- 32700)), (''message'', JStr ''Parse error'')])]]"
    by simp
  with p q(3) show ?thesis by (intro conjI)
qed

section \<open>Properties of the loop on malformed input\<close>

lemma drainBody_wait_remaining:
  "producer s = Writing cs \<Longrightarrow> drainBody_wait cs s = Some s' \<Longrightarrow> remaining s' = remaining s"
proof (induction cs arbitrary: s)
  case Nil
  then show ?case by (auto simp: remaining_def pending_bytes_def)
next
  case (Cons c cs)
  show ?case
  proof (cases "c = []")
    case True
    with Cons.prems have "drainBody_wait cs (s\<lparr>producer := Writing cs\<rparr>) = Some s'" by simp
    from Cons.IH[OF _ this] have "remaining s' = remaining (s\<lparr>producer := Writing cs\<rparr>)" by simp
    with True Cons.prems(1) show ?thesis by (simp add: remaining_def pending_bytes_def)
  next
    case False
    with Cons.prems show ?thesis by (auto simp: remaining_def pending_bytes_def)
  qed
qed

lemma drainBody_remaining: "drainBody s = Some s' \<Longrightarrow> remaining s' = remaining s"
  by (cases "producer s")
    (auto simp: drainBody_def dest: drainBody_wait_remaining split: if_splits)

lemma drainBody_wait_settles: "\<exists>s'. drainBody_wait cs s = Some s'"
  by (induction cs arbitrary: s) auto

lemma drainBody_data: "remaining s \<noteq> [] \<Longrightarrow> \<exists>s'. drainBody s = Some s'"
  using drainBody_wait_settles
  by (cases "producer s") (auto simp: drainBody_def remaining_def pending_bytes_def)

text \<open>The test of \<open>read\<close> on the parsed headers: the length is absent, empty, not a number,
  zero or negative.\<close>

definition invalid_length :: "Headers \<Rightarrow> bool" where
  "invalid_length headers =
     (case headers ''content-length'' of
        None \<Rightarrow> True
      | Some str \<Rightarrow> str = [] \<or> parseInt str = None \<or> the (parseInt str) \<le> 0)"

lemma invalid_length_ends_loop:
  assumes "readHeaders s = (Some headers, s1)" and "invalid_length headers"
  shows "(\<exists>s2. drainBody s1 = Some s2 \<and> remaining s2 = remaining s1
            \<and> FramedJSONRPC_read JSON_parse s = (Undefined, s2)
            \<and> run JSON_parse srv s = (Returned, srv, s2))
       \<or> (drainBody s1 = None
            \<and> FramedJSONRPC_read JSON_parse s = (Unsettled, s1)
            \<and> run JSON_parse srv s = (NeverSettles, srv, s1))"
proof -
  have rd: "FramedJSONRPC_read JSON_parse s =
      (case drainBody s1 of None \<Rightarrow> (Unsettled, s1) | Some s2 \<Rightarrow> (Undefined, s2))"
    using assms by (auto simp: FramedJSONRPC_read_def invalid_length_def Let_def split: option.splits)
  show ?thesis
  proof (cases "drainBody s1")
    case None
    with rd show ?thesis by (simp add: run.simps[of JSON_parse srv s])
  next
    case (Some s2)
    with rd drainBody_remaining[OF Some] show ?thesis
      by (simp add: run.simps[of JSON_parse srv s])
  qed
qed

text \<open>
  C7, as the code has it. After a header block whose \<open>Content-Length\<close> is zero, with more
  input behind it, \<open>read\<close> returns \<open>undefined\<close> without consuming anything behind the header
  block, and \<open>run\<close>, which takes \<open>undefined\<close> for the end of the stream, returns: nothing is
  written and the frames that follow are never read.
\<close>

theorem zero_length_frame_ends_loop:
  assumes "remaining s = header_block 0 @ rest" and "rest \<noteq> []"
  shows "\<exists>s'. FramedJSONRPC_read JSON_parse s = (Undefined, s') \<and> remaining s' = rest
            \<and> run JSON_parse srv s = (Returned, srv, s')"
proof -
  from readHeaders_header_block[OF assms(1)]
  obtain s1 where s1: "readHeaders s = (Some [''content-length'' \<mapsto> decimal 0], s1)"
    "remaining s1 = rest" by blast
  have inv: "invalid_length [''content-length'' \<mapsto> decimal 0]"
    by (simp add: invalid_length_def parseInt_decimal)
  from drainBody_data[of s1] s1(2) assms(2) have "drainBody s1 \<noteq> None" by auto
  with invalid_length_ends_loop[OF s1(1) inv, of JSON_parse srv] s1(2) show ?thesis by auto
qed

theorem zero_length_frame_ends_loop_witness:
  "remaining \<lparr>buffered = header_block 0, producer = Writing [frame ''{\"jsonrpc\":\"2.0\",\"id\":1,\"method\":\"initialize\"}'']\<rparr>
     = header_block 0 @ frame ''{\"jsonrpc\":\"2.0\",\"id\":1,\"method\":\"initialize\"}''
   \<and> frame ''{\"jsonrpc\":\"2.0\",\"id\":1,\"method\":\"initialize\"}'' \<noteq> []
   \<and> (\<exists>s'. FramedJSONRPC_read example_parse
              \<lparr>buffered = header_block 0, producer = Writing [frame ''{\"jsonrpc\":\"2.0\",\"id\":1,\"method\":\"initialize\"}'']\<rparr>
             = (Undefined, s')
          \<and> remaining s' = frame ''{\"jsonrpc\":\"2.0\",\"id\":1,\"method\":\"initialize\"}''
          \<and> run example_parse example_server
               \<lparr>buffered = header_block 0, producer = Writing [frame ''{\"jsonrpc\":\"2.0\",\"id\":1,\"method\":\"initialize\"}'']\<rparr>
             = (Returned, example_server, s'))
   \<and> written example_server = []"
proof -
  let ?b1 = "''{\"jsonrpc\":\"2.0\",\"id\":1,\"method\":\"initialize\"}''"
  let ?s = "\<lparr>buffered = header_block 0, producer = Writing [frame ?b1]\<rparr>"
  have h1: "remaining ?s = header_block 0 @ frame ?b1"
    by (simp add: remaining_def pending_bytes_def)
  have h2: "frame ?b1 \<noteq> []" by (simp add: frame_def)
  have w: "written example_server = []" by (simp add: example_server_def)
  from zero_length_frame_ends_loop[OF h1 h2, of example_parse example_server] h1 h2 w
  show ?thesis by (intro conjI)
qed

lemma readHeaders_none:
  assumes "LF \<notin> set (remaining s)"
  shows "\<exists>s'. readHeaders_loop headers s = (None, s')"
proof -
  from readLine_none[OF assms] obtain s' where "readLine s = (None, s')" by blast
  then show ?thesis by (simp add: readHeaders_loop.simps[of headers s])
qed

lemma readHeaders_partial_header:
  assumes "remaining s = take k (header_block n)" and "k < length (header_block n)"
  shows "\<exists>s'. readHeaders s = (None, s')"
proof -
  define pre where "pre = ''Content-Length: '' @ decimal n @ [CR]"
  have hb: "header_block n = pre @ [LF, CR, LF]"
    by (simp add: header_block_def pre_def CRLF_def)
  have nl: "LF \<notin> set pre"
    using decimal_no_LF[of n] by (simp add: pre_def LF_def CR_def)
  have ne: "pre @ [LF] \<noteq> CRLF" by (simp add: pre_def CRLF_def)
  from assms(2) hb have k: "k < length pre + 3" by simp
  consider "k \<le> length pre" | "k = length pre + 1" | "k = length pre + 2"
    using k by linarith
  then show ?thesis
  proof cases
    case 1
    then have "remaining s = take k pre" using assms(1) hb by simp
    then have "LF \<notin> set (remaining s)" using nl by (auto dest: in_set_takeD)
    then show ?thesis unfolding readHeaders_def by (rule readHeaders_none)
  next
    case 2
    then have "remaining s = pre @ LF # []" using assms(1) hb by simp
    from readLine_first[OF this nl] obtain s1 where s1: "readLine s = (Some (pre @ [LF]), s1)"
      "remaining s1 = []" by blast
    from s1(2) have "LF \<notin> set (remaining s1)" by simp
    from readHeaders_none[OF this] obtain s2 where
      "readHeaders_loop (add_header (pre @ [LF]) Map.empty) s1 = (None, s2)" by blast
    then have "readHeaders s = (None, s2)"
      unfolding readHeaders_def
      by (subst readHeaders_loop.simps) (simp add: s1(1) ne)
    then show ?thesis by blast
  next
    case 3
    then have "remaining s = pre @ LF # [CR]" using assms(1) hb by simp
    from readLine_first[OF this nl] obtain s1 where s1: "readLine s = (Some (pre @ [LF]), s1)"
      "remaining s1 = [CR]" by blast
    from s1(2) have "LF \<notin> set (remaining s1)" by (simp add: LF_def CR_def)
    from readHeaders_none[OF this] obtain s2 where
      "readHeaders_loop (add_header (pre @ [LF]) Map.empty) s1 = (None, s2)" by blast
    then have "readHeaders s = (None, s2)"
      unfolding readHeaders_def
      by (subst readHeaders_loop.simps) (simp add: s1(1) ne)
    then show ?thesis by blast
  qed
qed

text \<open>
  C10. When the stream ends after a complete header block with a positive length and before
  the whole body has come, \<open>read\<close> rejects with \<open>Stream ended\<close> and so does \<open>run\<close>, with nothing
  written; when it ends inside the header block, \<open>read\<close> returns \<open>undefined\<close> and \<open>run\<close>
  returns. The declared length is a safe integer, which \<open>parseInt\<close> returns exactly.
\<close>

theorem close_mid_body_rejects:
  "(remaining s = header_block n @ partial \<and> 0 < n \<and> int n \<le> MAX_SAFE_INTEGER \<and> length partial < n
      \<longrightarrow> (\<exists>s'. FramedJSONRPC_read JSON_parse s = (Rejected ''Stream ended'', s')
                \<and> run JSON_parse srv s = (Threw ''Stream ended'', srv, s')))
   \<and> (remaining s = take k (header_block n) \<and> k < length (header_block n)
      \<longrightarrow> (\<exists>s'. FramedJSONRPC_read JSON_parse s = (Undefined, s')
                \<and> run JSON_parse srv s = (Returned, srv, s')))"
proof (intro conjI impI)
  assume a: "remaining s = header_block n @ partial \<and> 0 < n \<and> int n \<le> MAX_SAFE_INTEGER \<and> length partial < n"
  then obtain s1 where s1: "readHeaders s = (Some [''content-length'' \<mapsto> decimal n], s1)"
    "remaining s1 = partial"
    using readHeaders_header_block by blast
  from a have pos: "0 < n" and short: "\<not> n \<le> length (remaining s1)" using s1(2) by simp_all
  from readBytes_spec[OF pos, of s1] short
  obtain s2 where s2: "readBytes n s1 = (Inl ''Stream ended'', s2)"
    by (cases "readBytes n s1") auto
  have "FramedJSONRPC_read JSON_parse s = (Rejected ''Stream ended'', s2)"
    using s1(1) s2 pos decimal_nonempty[of n]
    by (simp add: FramedJSONRPC_read_def parseInt_decimal)
  then show "\<exists>s'. FramedJSONRPC_read JSON_parse s = (Rejected ''Stream ended'', s')
                \<and> run JSON_parse srv s = (Threw ''Stream ended'', srv, s')"
    by (simp add: run.simps[of JSON_parse srv s])
next
  assume "remaining s = take k (header_block n) \<and> k < length (header_block n)"
  then obtain s' where "readHeaders s = (None, s')"
    using readHeaders_partial_header by blast
  then have "FramedJSONRPC_read JSON_parse s = (Undefined, s')"
    by (simp add: FramedJSONRPC_read_def)
  then show "\<exists>s'. FramedJSONRPC_read JSON_parse s = (Undefined, s')
                \<and> run JSON_parse srv s = (Returned, srv, s')"
    by (simp add: run.simps[of JSON_parse srv s])
qed


theorem close_mid_body_rejects_witness:
  "remaining \<lparr>buffered = header_block 5, producer = Writing [''{o'', ''op'']\<rparr> = header_block 5 @ ''{oop''
   \<and> (0 :: nat) < 5 \<and> int 5 \<le> MAX_SAFE_INTEGER \<and> length ''{oop'' < 5
   \<and> (\<exists>s'. FramedJSONRPC_read example_parse \<lparr>buffered = header_block 5, producer = Writing [''{o'', ''op'']\<rparr>
               = (Rejected ''Stream ended'', s')
          \<and> run example_parse example_server \<lparr>buffered = header_block 5, producer = Writing [''{o'', ''op'']\<rparr>
               = (Threw ''Stream ended'', example_server, s'))
   \<and> remaining \<lparr>buffered = take 10 (header_block 5), producer = Ended\<rparr> = take 10 (header_block 5)
   \<and> 10 < length (header_block 5)
   \<and> (\<exists>s'. FramedJSONRPC_read example_parse \<lparr>buffered = take 10 (header_block 5), producer = Ended\<rparr>
               = (Undefined, s')
          \<and> run example_parse example_server \<lparr>buffered = take 10 (header_block 5), producer = Ended\<rparr>
               = (Returned, example_server, s'))"
proof -
  let ?a = "\<lparr>buffered = header_block 5, producer = Writing [''{o'', ''op'']\<rparr>"
  let ?b = "\<lparr>buffered = take 10 (header_block 5), producer = Ended\<rparr>"
  have ra: "remaining ?a = header_block 5 @ ''{oop''"
    by (simp add: remaining_def pending_bytes_def)
  have rb: "remaining ?b = take 10 (header_block 5)"
    by (simp add: remaining_def pending_bytes_def)
  have lb: "10 < length (header_block 5)"
    by (simp add: header_block_def CRLF_def)
  note T1 = close_mid_body_rejects[where s="?a" and n=5 and partial="''{oop''"
      and JSON_parse=example_parse and srv=example_server]
  note T2 = close_mid_body_rejects[where s="?b" and n=5 and k=10
      and JSON_parse=example_parse and srv=example_server]
  have ms: "int 5 \<le> MAX_SAFE_INTEGER" by (simp add: MAX_SAFE_INTEGER_def)
  from T1 ra ms have p1: "\<exists>s'. FramedJSONRPC_read example_parse ?a = (Rejected ''Stream ended'', s')
          \<and> run example_parse example_server ?a = (Threw ''Stream ended'', example_server, s')"
    by simp
  from T2 rb lb have p2: "\<exists>s'. FramedJSONRPC_read example_parse ?b = (Undefined, s')
          \<and> run example_parse example_server ?b = (Returned, example_server, s')"
    by simp
  show ?thesis using ra rb lb ms p1 p2 by simp
qed

end
